theory Spec2Isabelle
  imports Main
begin

section \<open>Addresses, errors and the objects of the def-use subsystem\<close>

text \<open>
  A pointer names a buffer obtained from the platform allocator (buffers are numbered in
  the order in which \<^verbatim>\<open>::operator new\<close> hands them out) and a byte offset into that
  buffer. Pointer arithmetic moves the offset; stepping below the start of a buffer
  is undefined in the source and an error here.
\<close>

datatype ptr = Ptr (buffer: nat) (offset: nat)

type_synonym Value = nat

datatype error = AssertionFailed | InvalidAccess | InvalidFree

definition ptr_add :: "ptr \<Rightarrow> nat \<Rightarrow> ptr" where
  "ptr_add p n = Ptr (buffer p) (offset p + n)"

definition ptr_sub :: "ptr \<Rightarrow> nat \<Rightarrow> error + ptr" where
  "ptr_sub p n = (if offset p < n then Inl InvalidAccess else Inr (Ptr (buffer p) (offset p - n)))"

definition bind :: "error + 'a \<Rightarrow> ('a \<Rightarrow> error + 'b) \<Rightarrow> error + 'b" where
  "bind m f = (case m of Inl e \<Rightarrow> Inl e | Inr x \<Rightarrow> f x)"

text \<open>
  What a \<^verbatim>\<open>Use **\<close> can point at: the \<^verbatim>\<open>UseList\<close> head of a Value, or the
  \<^verbatim>\<open>Next\<close> field of a Use.
\<close>

datatype slot = UseListOf Value | NextOf ptr

record Use =
  Val :: "Value option"
  Next :: "ptr option"
  Prev :: "slot option"
  Parent :: "ptr option"

record User =
  NumUserOperands :: nat
  HasHungOffUses :: bool

datatype value_kind = InstructionVal | ConstantVal | GlobalValueVal

record Block =
  Blob :: ptr
  Offset :: nat

record Bucket =
  FreeUsers :: "ptr list"

record UserBlockAllocator =
  Blocks :: "Block list"
  Buckets :: "Bucket list"

text \<open>
  The program state. \<open>heap_next\<close> and \<open>heap_live\<close> are the platform allocator;
  \<open>PrivateAllocatorData\<close> is that bit-field as read and written through an allocation's
  base pointer: the allocator writes it into the first bytes of the allocation, so it can
  be read back only as long as no object has been placed over those bytes; \<open>use_at\<close>,
  \<open>user_at\<close>, \<open>hungoff_at\<close> and \<open>bb_at\<close> are the objects at an address (Uses,
  Users, the \<^verbatim>\<open>Use *\<close> slot in front of a hung-off User, \<^verbatim>\<open>BasicBlock *\<close> cells);
  \<open>UseList\<close> is the use-list head of every Value; \<open>SubclassID\<close> is what \<^verbatim>\<open>isa<>\<close>
  reads.
\<close>

record world =
  heap_next :: nat
  heap_live :: "nat set"
  PrivateAllocatorData :: "ptr \<rightharpoonup> nat"
  g_ThreadUserAllocatorTls :: "UserBlockAllocator option"
  use_at :: "ptr \<rightharpoonup> Use"
  UseList :: "Value \<Rightarrow> ptr option"
  user_at :: "ptr \<rightharpoonup> User"
  hungoff_at :: "ptr \<rightharpoonup> ptr option"
  bb_at :: "ptr \<rightharpoonup> nat"
  SubclassID :: "ptr \<Rightarrow> value_kind"

definition world0 :: world where
  "world0 = \<lparr>heap_next = 0, heap_live = {}, PrivateAllocatorData = Map.empty,
     g_ThreadUserAllocatorTls = None, use_at = Map.empty, UseList = (\<lambda>_. None),
     user_at = Map.empty, hungoff_at = Map.empty, bb_at = Map.empty,
     SubclassID = (\<lambda>_. InstructionVal)\<rparr>"

definition sizeof_Use :: nat where
  "sizeof_Use = 32"

definition sizeof_ptr :: nat where
  "sizeof_ptr = 8"

text \<open>
  Modelled from the spec: the bit widths \<^verbatim>\<open>User::AllocationBits\<close> and
  \<^verbatim>\<open>NumUserOperandsBits\<close> are declared in a header that is not part of the sources at
  hand; the spec gives 5 and 27.
\<close>

definition AllocationBits :: nat where
  "AllocationBits = 5"

definition NumUserOperandsBits :: nat where
  "NumUserOperandsBits = 27"

section \<open>The platform allocator\<close>

definition platform_new :: "world \<Rightarrow> ptr \<times> world" where
  "platform_new w =
     (Ptr (heap_next w) 0,
      w\<lparr>heap_next := Suc (heap_next w), heap_live := insert (heap_next w) (heap_live w)\<rparr>)"

text \<open>
  \<^verbatim>\<open>::operator delete\<close> gives a buffer back to the platform. The Uses stored in it are
  gone with it, whether or not their destructor has run: a use-list head, a \<open>Next\<close> field
  or a \<open>Prev\<close> field that still points at one of them dangles, and following it is an
  error. The other maps keep their entries for the buffer: a User, an indirection slot, a
  BasicBlock cell or a tag in released memory is reached only through the pointer of the
  owner that released it, never from a use-list.
\<close>

definition release :: "nat set \<Rightarrow> world \<Rightarrow> world" where
  "release B w =
     w\<lparr>heap_live := heap_live w - B,
       use_at := (\<lambda>p. if buffer p \<in> B then None else use_at w p)\<rparr>"

definition platform_delete :: "ptr \<Rightarrow> world \<Rightarrow> error + world" where
  "platform_delete p w =
     (if offset p = 0 \<and> buffer p \<in> heap_live w
      then Inr (release {buffer p} w)
      else Inl InvalidFree)"

section \<open>UserBlockAllocator\<close>

definition BlockSize :: nat where
  "BlockSize = 2 ^ 16"

definition LargeAllocationThreshold :: nat where
  "LargeAllocationThreshold = 2 ^ 12"

definition InvalidBucket :: nat where
  "InvalidBucket = 2 ^ (AllocationBits - 1)"

text \<open>The index of the most significant set bit, as \<^verbatim>\<open>_BitScanReverse\<close> reports it.\<close>

fun msb_index :: "nat \<Rightarrow> nat" where
  "msb_index n = (if n < 2 then 0 else Suc (msb_index (n div 2)))"

declare msb_index.simps [simp del]

definition BitScanReverse :: "nat \<Rightarrow> nat option" where
  "BitScanReverse Mask = (if Mask = 0 then None else Some (msb_index Mask))"

text \<open>
  Modelled from the spec: \<^verbatim>\<open>PowerOf2Floor\<close> and \<^verbatim>\<open>NextPowerOf2\<close> live in a support
  header that is not part of the sources at hand. The spec words them as the power of two
  at or below the size (floor) and the next power of two at or above the size (ceil); the
  comment in \<^verbatim>\<open>GetReuseBucketIndex\<close> says "the next power of two, or current".
\<close>

definition PowerOf2Floor :: "nat \<Rightarrow> nat" where
  "PowerOf2Floor n = (if n = 0 then 0 else 2 ^ msb_index n)"

definition NextPowerOf2 :: "nat \<Rightarrow> nat" where
  "NextPowerOf2 n = (if n \<le> 1 then 1 else 2 ^ Suc (msb_index (n - 1)))"

definition GetPrivateData :: "ptr \<Rightarrow> world \<Rightarrow> error + nat" where
  "GetPrivateData p w =
     (case PrivateAllocatorData w p of None \<Rightarrow> Inl InvalidAccess | Some t \<Rightarrow> Inr t)"

definition SetPrivateData :: "ptr \<Rightarrow> nat \<Rightarrow> world \<Rightarrow> world" where
  "SetPrivateData p v w =
     w\<lparr>PrivateAllocatorData := (PrivateAllocatorData w)(p \<mapsto> v mod 2 ^ AllocationBits)\<rparr>"

definition GetFreeBucketIndex :: "nat \<Rightarrow> error + nat" where
  "GetFreeBucketIndex Size =
     (case BitScanReverse (PowerOf2Floor Size mod 2 ^ 32) of
        None \<Rightarrow> Inl AssertionFailed
      | Some Index \<Rightarrow> Inr Index)"

definition GetReuseBucketIndex :: "nat \<Rightarrow> error + nat" where
  "GetReuseBucketIndex Size =
     (case BitScanReverse (NextPowerOf2 Size mod 2 ^ 32) of
        None \<Rightarrow> Inl AssertionFailed
      | Some Index \<Rightarrow> Inr Index)"

definition GetFirstBlockFor :: "UserBlockAllocator \<Rightarrow> nat \<Rightarrow> world \<Rightarrow> UserBlockAllocator \<times> world" where
  "GetFirstBlockFor a Size w =
     (if Blocks a \<noteq> [] \<and> Size \<le> (BlockSize + 2 ^ 64 - Offset (last (Blocks a))) mod 2 ^ 64
      then (a, w)
      else (case platform_new w of
              (blob, w1) \<Rightarrow> (a\<lparr>Blocks := Blocks a @ [\<lparr>Blob = blob, Offset = 0\<rparr>]\<rparr>, w1)))"

definition GetBucketFor :: "UserBlockAllocator \<Rightarrow> nat \<Rightarrow> UserBlockAllocator" where
  "GetBucketFor a BucketIndex =
     (if length (Buckets a) \<le> BucketIndex
      then a\<lparr>Buckets := Buckets a @
             replicate (BucketIndex + 1 - length (Buckets a)) \<lparr>FreeUsers = []\<rparr>\<rparr>
      else a)"

definition TryPopFree :: "UserBlockAllocator \<Rightarrow> nat \<Rightarrow> (ptr \<times> UserBlockAllocator) option" where
  "TryPopFree a BucketIndex =
     (if BucketIndex \<ge> length (Buckets a) then None
      else if FreeUsers (Buckets a ! BucketIndex) = [] then None
      else Some (last (FreeUsers (Buckets a ! BucketIndex)),
                 a\<lparr>Buckets := (Buckets a)[BucketIndex :=
                     \<lparr>FreeUsers = butlast (FreeUsers (Buckets a ! BucketIndex))\<rparr>]\<rparr>))"

definition carve :: "UserBlockAllocator \<Rightarrow> nat \<Rightarrow> world \<Rightarrow> error + ptr \<times> UserBlockAllocator \<times> world" where
  "carve a Size w =
     (case GetFirstBlockFor a Size w of
        (a1, w1) \<Rightarrow>
          (let blk = last (Blocks a1); Data = ptr_add (Blob blk) (Offset blk) in
           bind (GetFreeBucketIndex Size) (\<lambda>BucketIndex.
             if \<not> BucketIndex \<le> 2 ^ AllocationBits then Inl AssertionFailed
             else Inr (Data,
                       a1\<lparr>Blocks := butlast (Blocks a1) @
                            [blk\<lparr>Offset := (Offset blk + Size + 7) mod 2 ^ 64 div 8 * 8\<rparr>]\<rparr>,
                       SetPrivateData Data BucketIndex w1))))"

definition Allocate :: "UserBlockAllocator \<Rightarrow> nat \<Rightarrow> world \<Rightarrow> error + ptr \<times> UserBlockAllocator \<times> world" where
  "Allocate a Size w =
     (if Size > LargeAllocationThreshold
      then (case platform_new w of
              (Data, w1) \<Rightarrow> Inr (Data, a, SetPrivateData Data InvalidBucket w1))
      else bind (GetReuseBucketIndex Size) (\<lambda>ReuseIndex.
             case TryPopFree a ReuseIndex of
               Some (FreeUser, a1) \<Rightarrow> Inr (FreeUser, a1, w)
             | None \<Rightarrow> carve a Size w))"

definition Free :: "UserBlockAllocator \<Rightarrow> ptr \<Rightarrow> world \<Rightarrow> error + UserBlockAllocator \<times> world" where
  "Free a p w =
     bind (GetPrivateData p w) (\<lambda>BucketIndex.
       if BucketIndex = InvalidBucket
       then bind (platform_delete p w) (\<lambda>w1. Inr (a, w1))
       else (let a1 = GetBucketFor a BucketIndex in
             Inr (a1\<lparr>Buckets := (Buckets a1)[BucketIndex :=
                    \<lparr>FreeUsers = FreeUsers (Buckets a1 ! BucketIndex) @ [p]\<rparr>]\<rparr>, w)))"

definition new_UserBlockAllocator :: UserBlockAllocator where
  "new_UserBlockAllocator = \<lparr>Blocks = [], Buckets = []\<rparr>"

text \<open>The destructor of the arena returns every block to the platform.\<close>

fun delete_Blocks :: "Block list \<Rightarrow> world \<Rightarrow> error + world" where
  "delete_Blocks [] w = Inr w"
| "delete_Blocks (b # bs) w = bind (platform_delete (Blob b) w) (delete_Blocks bs)"

definition UserThreadAlloc_ctor :: "world \<Rightarrow> error + world" where
  "UserThreadAlloc_ctor w =
     (if g_ThreadUserAllocatorTls w \<noteq> None then Inl AssertionFailed
      else Inr (w\<lparr>g_ThreadUserAllocatorTls := Some new_UserBlockAllocator\<rparr>))"

definition UserThreadAlloc_dtor :: "world \<Rightarrow> error + world" where
  "UserThreadAlloc_dtor w =
     (case g_ThreadUserAllocatorTls w of
        None \<Rightarrow> Inl AssertionFailed
      | Some a \<Rightarrow> bind (delete_Blocks (Blocks a) w)
                   (\<lambda>w1. Inr (w1\<lparr>g_ThreadUserAllocatorTls := None\<rparr>)))"

definition UserAlloc :: "nat \<Rightarrow> world \<Rightarrow> error + ptr \<times> world" where
  "UserAlloc Size w =
     (case g_ThreadUserAllocatorTls w of
        Some a \<Rightarrow> bind (Allocate a Size w)
                   (\<lambda>(p, a1, w1). Inr (p, w1\<lparr>g_ThreadUserAllocatorTls := Some a1\<rparr>))
      | None \<Rightarrow> Inr (platform_new w))"

definition UserFree :: "ptr \<Rightarrow> world \<Rightarrow> error + world" where
  "UserFree p w =
     (case g_ThreadUserAllocatorTls w of
        Some a \<Rightarrow> bind (Free a p w)
                   (\<lambda>(a1, w1). Inr (w1\<lparr>g_ThreadUserAllocatorTls := Some a1\<rparr>))
      | None \<Rightarrow> platform_delete p w)"

text \<open>
  The allocator scenario of the spec: allocate \<open>S\<close>, free the result, allocate \<open>S'\<close>;
  the result is the pair of the two addresses.
\<close>

definition alloc_free_alloc :: "UserBlockAllocator \<Rightarrow> world \<Rightarrow> nat \<Rightarrow> nat \<Rightarrow> error + ptr \<times> ptr" where
  "alloc_free_alloc a w S S' =
     bind (Allocate a S w) (\<lambda>(p, a1, w1).
       bind (Free a1 p w1) (\<lambda>(a2, w2).
         bind (Allocate a2 S' w2) (\<lambda>(q, a3, w3). Inr (p, q))))"

text \<open>Every cached slot carries the index of the bucket that holds it as its tag.\<close>

definition arena_tagged :: "UserBlockAllocator \<Rightarrow> world \<Rightarrow> bool" where
  "arena_tagged a w \<longleftrightarrow>
     (\<forall>i < length (Buckets a). \<forall>q \<in> set (FreeUsers (Buckets a ! i)).
        PrivateAllocatorData w q = Some i)"

text \<open>The blocks of an arena are distinct live buffers of the platform.\<close>

definition blocks_live :: "UserBlockAllocator \<Rightarrow> world \<Rightarrow> bool" where
  "blocks_live a w \<longleftrightarrow>
     distinct (map Blob (Blocks a)) \<and>
     (\<forall>b \<in> set (Blocks a). offset (Blob b) = 0 \<and> buffer (Blob b) \<in> heap_live w)"

section \<open>Use: the def-use edge\<close>

definition get_use :: "ptr \<Rightarrow> world \<Rightarrow> error + Use" where
  "get_use u w = (case use_at w u of None \<Rightarrow> Inl InvalidAccess | Some r \<Rightarrow> Inr r)"

definition modify_use :: "ptr \<Rightarrow> (Use \<Rightarrow> Use) \<Rightarrow> world \<Rightarrow> error + world" where
  "modify_use u f w =
     (case use_at w u of
        None \<Rightarrow> Inl InvalidAccess
      | Some r \<Rightarrow> Inr (w\<lparr>use_at := (use_at w)(u \<mapsto> f r)\<rparr>))"

definition read_slot :: "slot \<Rightarrow> world \<Rightarrow> error + ptr option" where
  "read_slot s w =
     (case s of
        UseListOf v \<Rightarrow> Inr (UseList w v)
      | NextOf u \<Rightarrow> bind (get_use u w) (\<lambda>r. Inr (Next r)))"

definition write_slot :: "slot \<Rightarrow> ptr option \<Rightarrow> world \<Rightarrow> error + world" where
  "write_slot s x w =
     (case s of
        UseListOf v \<Rightarrow> Inr (w\<lparr>UseList := (UseList w)(v := x)\<rparr>)
      | NextOf u \<Rightarrow> modify_use u (\<lambda>r. r\<lparr>Next := x\<rparr>) w)"

definition setPrev :: "ptr \<Rightarrow> slot \<Rightarrow> world \<Rightarrow> error + world" where
  "setPrev u NewPrev w = modify_use u (\<lambda>r. r\<lparr>Prev := Some NewPrev\<rparr>) w"

definition addToList :: "ptr \<Rightarrow> slot \<Rightarrow> world \<Rightarrow> error + world" where
  "addToList u List w =
     bind (read_slot List w) (\<lambda>n.
     bind (modify_use u (\<lambda>r. r\<lparr>Next := n\<rparr>) w) (\<lambda>w1.
     bind (case n of None \<Rightarrow> Inr w1 | Some m \<Rightarrow> setPrev m (NextOf u) w1) (\<lambda>w2.
     bind (setPrev u List w2) (\<lambda>w3.
     write_slot List (Some u) w3))))"

definition removeFromList :: "ptr \<Rightarrow> world \<Rightarrow> error + world" where
  "removeFromList u w =
     bind (get_use u w) (\<lambda>r.
       case Prev r of
         None \<Rightarrow> Inl InvalidAccess
       | Some StrippedPrev \<Rightarrow>
           bind (write_slot StrippedPrev (Next r) w) (\<lambda>w1.
           bind (get_use u w1) (\<lambda>r1.
             case Next r1 of
               None \<Rightarrow> Inr w1
             | Some m \<Rightarrow> setPrev m StrippedPrev w1)))"

text \<open>
  The constructor \<^verbatim>\<open>Use(User *Parent)\<close>, placed at an address, and the destructor. The
  constructor writes all four fields of the Use; a tag that the allocator wrote into the
  bytes at this address is overwritten and cannot be read back.
\<close>

definition Use_ctor :: "ptr \<Rightarrow> ptr \<Rightarrow> world \<Rightarrow> world" where
  "Use_ctor u P w =
     w\<lparr>use_at := (use_at w)(u \<mapsto> \<lparr>Val = None, Next = None, Prev = None, Parent = Some P\<rparr>),
       PrivateAllocatorData := (PrivateAllocatorData w)(u := None)\<rparr>"

definition Use_dtor :: "ptr \<Rightarrow> world \<Rightarrow> error + world" where
  "Use_dtor u w =
     bind (get_use u w) (\<lambda>r.
     bind (if Val r \<noteq> None then removeFromList u w else Inr w) (\<lambda>w1.
     Inr (w1\<lparr>use_at := (use_at w1)(u := None)\<rparr>)))"

text \<open>
  Modelled from the spec: \<^verbatim>\<open>Value::addUse\<close> and \<^verbatim>\<open>Use::set\<close> are defined in a
  header that is not part of the sources at hand. The spec: \<open>addUse\<close> splices a Use at
  the head of the Value's use-list; \<open>set(v)\<close>: if \<open>Val == v\<close>, no-op, otherwise, if
  \<open>Val\<close> is present, remove from its use-list, assign \<open>Val = v\<close>, and if \<open>v\<close> is present
  splice at the head of \<open>v\<close>'s use-list.
\<close>

definition addUse :: "Value \<Rightarrow> ptr \<Rightarrow> world \<Rightarrow> error + world" where
  "addUse v u w = addToList u (UseListOf v) w"

definition Use_set :: "ptr \<Rightarrow> Value option \<Rightarrow> world \<Rightarrow> error + world" where
  "Use_set u V w =
     bind (get_use u w) (\<lambda>r.
       if Val r = V then Inr w
       else
         bind (if Val r \<noteq> None then removeFromList u w else Inr w) (\<lambda>w1.
         bind (modify_use u (\<lambda>r. r\<lparr>Val := V\<rparr>) w1) (\<lambda>w2.
         case V of None \<Rightarrow> Inr w2 | Some v \<Rightarrow> addUse v u w2)))"

definition Use_swap :: "ptr \<Rightarrow> ptr \<Rightarrow> world \<Rightarrow> error + world" where
  "Use_swap this RHS w =
     bind (get_use this w) (\<lambda>r.
     bind (get_use RHS w) (\<lambda>rr.
       if Val r = Val rr then Inr w
       else
         bind (if Val r \<noteq> None then removeFromList this w else Inr w) (\<lambda>w1.
         bind (get_use this w1) (\<lambda>r1.
         let OldVal = Val r1 in
         bind (get_use RHS w1) (\<lambda>rr1.
         bind (case Val rr1 of
                 Some v \<Rightarrow>
                   bind (removeFromList RHS w1) (\<lambda>w2.
                   bind (modify_use this (\<lambda>r. r\<lparr>Val := Some v\<rparr>) w2) (\<lambda>w3.
                   addUse v this w3))
               | None \<Rightarrow> modify_use this (\<lambda>r. r\<lparr>Val := None\<rparr>) w1) (\<lambda>w4.
         case OldVal of
           Some v \<Rightarrow>
             bind (modify_use RHS (\<lambda>r. r\<lparr>Val := Some v\<rparr>) w4) (\<lambda>w5.
             addUse v RHS w5)
         | None \<Rightarrow> modify_use RHS (\<lambda>r. r\<lparr>Val := None\<rparr>) w4))))))"

text \<open>
  \<^verbatim>\<open>Use::zap\<close>: the loop steps \<open>Stop\<close> down one Use at a time and destroys the Use
  there, until it meets \<open>Start\<close>; stepping below the start of the buffer, or onto an
  address that holds no Use, is undefined in the source and an error here.
\<close>

function zap_loop :: "ptr \<Rightarrow> ptr \<Rightarrow> world \<Rightarrow> error + world" where
  "zap_loop Start Stop w =
     (if Start = Stop then Inr w
      else (case ptr_sub Stop sizeof_Use of
              Inl e \<Rightarrow> Inl e
            | Inr Stop' \<Rightarrow>
                (case Use_dtor Stop' w of
                   Inl e \<Rightarrow> Inl e
                 | Inr w1 \<Rightarrow> zap_loop Start Stop' w1)))"
  by pat_completeness auto
termination
  by (relation "measure (\<lambda>(Start, Stop, w). offset Stop)")
    (auto simp: ptr_sub_def sizeof_Use_def split: if_splits)

declare zap_loop.simps [simp del]

definition zap :: "ptr \<Rightarrow> ptr \<Rightarrow> bool \<Rightarrow> world \<Rightarrow> error + world" where
  "zap Start Stop del w =
     bind (zap_loop Start Stop w) (\<lambda>w1.
       if del then platform_delete Start w1 else Inr w1)"

section \<open>User: the operand container\<close>

definition get_user :: "ptr \<Rightarrow> world \<Rightarrow> error + User" where
  "get_user U w = (case user_at w U of None \<Rightarrow> Inl InvalidAccess | Some r \<Rightarrow> Inr r)"

text \<open>The loop \<^verbatim>\<open>for (; Begin != End; Begin++) new (Begin) Use(Parent)\<close> over \<open>n\<close> Uses.\<close>

fun construct_Uses :: "ptr \<Rightarrow> nat \<Rightarrow> ptr \<Rightarrow> world \<Rightarrow> world" where
  "construct_Uses Begin 0 P w = w"
| "construct_Uses Begin (Suc n) P w =
     construct_Uses (ptr_add Begin sizeof_Use) n P (Use_ctor Begin P w)"

text \<open>
  \<^verbatim>\<open>User::operator new(size_t Size, unsigned Us)\<close>. With operands, the first Use lies at
  the base of the allocation, over the allocator's tag. With none, the User itself lies at
  the base, the tag is its own bit-field and the two field writes leave it alone.
\<close>

definition operator_new :: "nat \<Rightarrow> nat \<Rightarrow> world \<Rightarrow> error + ptr \<times> world" where
  "operator_new Size Us w =
     (if \<not> Us < 2 ^ NumUserOperandsBits then Inl AssertionFailed
      else bind (UserAlloc ((Size + sizeof_Use * Us) mod 2 ^ 64) w) (\<lambda>(Storage, w1).
             let Obj = ptr_add Storage (sizeof_Use * Us);
                 w2 = w1\<lparr>user_at := (user_at w1)
                          (Obj \<mapsto> \<lparr>NumUserOperands = Us, HasHungOffUses = False\<rparr>)\<rparr>
             in Inr (Obj, construct_Uses Storage Us Obj w2)))"

text \<open>
  \<^verbatim>\<open>User::operator new(size_t Size)\<close>, the hung-off shape. The indirection slot and the
  User behind it are placed over the base of the allocation, so the allocator's tag there
  cannot be read back.
\<close>

definition operator_new_hungoff :: "nat \<Rightarrow> world \<Rightarrow> error + ptr \<times> world" where
  "operator_new_hungoff Size w =
     bind (UserAlloc ((Size + sizeof_ptr) mod 2 ^ 64) w) (\<lambda>(Storage, w1).
       let Obj = ptr_add Storage sizeof_ptr in
       Inr (Obj, w1\<lparr>user_at := (user_at w1)
                       (Obj \<mapsto> \<lparr>NumUserOperands = 0, HasHungOffUses = True\<rparr>),
                     hungoff_at := (hungoff_at w1)(Storage \<mapsto> None),
                     PrivateAllocatorData := (PrivateAllocatorData w1)(Storage := None)\<rparr>))"

text \<open>
  Modelled from the spec: the accessors \<^verbatim>\<open>getOperandList\<close>, \<^verbatim>\<open>setOperandList\<close>,
  \<^verbatim>\<open>getNumOperands\<close>, \<^verbatim>\<open>getOperand\<close> and \<^verbatim>\<open>setOperand\<close> are declared in a header
  that is not part of the sources at hand. The spec: an inline User's Use array lies
  immediately before the User; a hung-off User's array is reached through the indirection
  slot that sits before the User; \<open>getOperand(i)\<close> is the Value stored in the i-th Use;
  \<open>setOperand(i, v)\<close> unlinks the i-th Use from its current Value's use-list, writes the
  new Value and splices into the new Value's use-list. The operand list of a hung-off
  User may be the null pointer.
\<close>

definition getNumOperands :: "ptr \<Rightarrow> world \<Rightarrow> error + nat" where
  "getNumOperands U w = bind (get_user U w) (\<lambda>r. Inr (NumUserOperands r))"

definition getOperandList :: "ptr \<Rightarrow> world \<Rightarrow> error + ptr option" where
  "getOperandList U w =
     bind (get_user U w) (\<lambda>r.
       if HasHungOffUses r
       then bind (ptr_sub U sizeof_ptr) (\<lambda>HungOffOperandList.
              case hungoff_at w HungOffOperandList of
                None \<Rightarrow> Inl InvalidAccess
              | Some Ops \<Rightarrow> Inr Ops)
       else bind (ptr_sub U (sizeof_Use * NumUserOperands r)) (\<lambda>Storage. Inr (Some Storage)))"

definition setOperandList :: "ptr \<Rightarrow> ptr \<Rightarrow> world \<Rightarrow> error + world" where
  "setOperandList U Begin w =
     bind (get_user U w) (\<lambda>r.
       if \<not> HasHungOffUses r then Inl AssertionFailed
       else bind (ptr_sub U sizeof_ptr) (\<lambda>HungOffOperandList.
              Inr (w\<lparr>hungoff_at := (hungoff_at w)(HungOffOperandList \<mapsto> Some Begin)\<rparr>)))"

text \<open>
  Modelled from the spec: the operand count of a hung-off User changes over its lifetime
  (the spec: hung-off operands are "used for Users whose operand count changes over their
  lifetime"; \<open>NumUserOperands\<close> is "limited to \<open>2^NumUserOperandsBits - 1\<close>"). The method
  that writes the field is declared in a header that is not part of the sources at hand;
  here it writes \<open>NumUserOperands\<close> of a hung-off User, under that bound.
\<close>

definition setNumHungOffUseOperands :: "ptr \<Rightarrow> nat \<Rightarrow> world \<Rightarrow> error + world" where
  "setNumHungOffUseOperands U NumOps w =
     bind (get_user U w) (\<lambda>r.
       if \<not> HasHungOffUses r then Inl AssertionFailed
       else if \<not> NumOps < 2 ^ NumUserOperandsBits then Inl AssertionFailed
       else Inr (w\<lparr>user_at := (user_at w)(U \<mapsto> r\<lparr>NumUserOperands := NumOps\<rparr>)\<rparr>))"

definition operand_use :: "ptr \<Rightarrow> nat \<Rightarrow> world \<Rightarrow> error + ptr" where
  "operand_use U i w =
     bind (getOperandList U w) (\<lambda>Ops.
       case Ops of
         None \<Rightarrow> Inl InvalidAccess
       | Some Begin \<Rightarrow> Inr (ptr_add Begin (sizeof_Use * i)))"

definition getOperand :: "ptr \<Rightarrow> nat \<Rightarrow> world \<Rightarrow> error + Value option" where
  "getOperand U i w =
     bind (operand_use U i w) (\<lambda>u. bind (get_use u w) (\<lambda>r. Inr (Val r)))"

definition setOperand :: "ptr \<Rightarrow> nat \<Rightarrow> Value option \<Rightarrow> world \<Rightarrow> error + world" where
  "setOperand U i V w = bind (operand_use U i w) (\<lambda>u. Use_set u V w)"

text \<open>
  \<^verbatim>\<open>Use::zap(P, P + n, del)\<close> for an operand list \<open>P\<close> that may be the null pointer:
  with no Uses to destroy nothing is dereferenced, and deleting the null pointer does
  nothing.
\<close>

definition zap_list :: "ptr option \<Rightarrow> nat \<Rightarrow> bool \<Rightarrow> world \<Rightarrow> error + world" where
  "zap_list Ops n del w =
     (case Ops of
        None \<Rightarrow> if n = 0 then Inr w else Inl InvalidAccess
      | Some Begin \<Rightarrow> zap Begin (ptr_add Begin (sizeof_Use * n)) del w)"

text \<open>
  \<^verbatim>\<open>User::allocHungoffUses\<close>. The byte count (\<open>N\<close> Uses, and \<open>N\<close> BasicBlock pointers
  for a PHI) only matters to the platform allocator.
\<close>

definition allocHungoffUses :: "ptr \<Rightarrow> nat \<Rightarrow> bool \<Rightarrow> world \<Rightarrow> error + world" where
  "allocHungoffUses U N IsPhi w =
     bind (get_user U w) (\<lambda>r.
       if \<not> HasHungOffUses r then Inl AssertionFailed
       else (case platform_new w of
               (Begin, w1) \<Rightarrow>
                 bind (setOperandList U Begin w1) (\<lambda>w2.
                 Inr (construct_Uses Begin N U w2))))"

text \<open>
  \<^verbatim>\<open>std::copy(OldOps, OldOps + n, NewOps)\<close> assigns Use to Use, front to back; the
  assignment \<^verbatim>\<open>Use::operator=(const Use &RHS)\<close> is \<^verbatim>\<open>set(RHS.Val)\<close>.
\<close>

fun copy_Uses :: "ptr \<Rightarrow> ptr \<Rightarrow> nat \<Rightarrow> world \<Rightarrow> error + world" where
  "copy_Uses From To 0 w = Inr w"
| "copy_Uses From To (Suc n) w =
     bind (get_use From w) (\<lambda>RHS.
     bind (Use_set To (Val RHS) w) (\<lambda>w1.
     copy_Uses (ptr_add From sizeof_Use) (ptr_add To sizeof_Use) n w1))"

text \<open>The byte copy of \<open>n\<close> BasicBlock pointers, one pointer cell at a time.\<close>

fun copy_BBs :: "ptr \<Rightarrow> ptr \<Rightarrow> nat \<Rightarrow> world \<Rightarrow> world" where
  "copy_BBs From To 0 w = w"
| "copy_BBs From To (Suc n) w =
     copy_BBs (ptr_add From sizeof_ptr) (ptr_add To sizeof_ptr) n
       (w\<lparr>bb_at := (bb_at w)(To := bb_at w From)\<rparr>)"

definition growHungoffUses :: "ptr \<Rightarrow> nat \<Rightarrow> bool \<Rightarrow> world \<Rightarrow> error + world" where
  "growHungoffUses U NewNumUses IsPhi w =
     bind (get_user U w) (\<lambda>r.
       if \<not> HasHungOffUses r then Inl AssertionFailed
       else
         let OldNumUses = NumUserOperands r in
         if \<not> NewNumUses > OldNumUses then Inl AssertionFailed
         else
           bind (getOperandList U w) (\<lambda>OldOps.
           bind (allocHungoffUses U NewNumUses IsPhi w) (\<lambda>w1.
           bind (getOperandList U w1) (\<lambda>NewOps.
           case NewOps of
             None \<Rightarrow> Inl InvalidAccess
           | Some New \<Rightarrow>
               bind (case OldOps of
                       None \<Rightarrow> if OldNumUses = 0 then Inr w1 else Inl InvalidAccess
                     | Some Old \<Rightarrow>
                         bind (copy_Uses Old New OldNumUses w1) (\<lambda>w2.
                         Inr (if IsPhi
                              then copy_BBs (ptr_add Old (sizeof_Use * OldNumUses))
                                     (ptr_add New (sizeof_Use * NewNumUses)) OldNumUses w2
                              else w2))) (\<lambda>w3.
               zap_list OldOps OldNumUses True w3)))))"

text \<open>\<^verbatim>\<open>User::operator delete(void *Usr)\<close>\<close>

definition operator_delete :: "ptr \<Rightarrow> world \<Rightarrow> error + world" where
  "operator_delete Usr w =
     bind (get_user Usr w) (\<lambda>Obj.
       if HasHungOffUses Obj
       then bind (ptr_sub Usr sizeof_ptr) (\<lambda>HungOffOperandList.
              case hungoff_at w HungOffOperandList of
                None \<Rightarrow> Inl InvalidAccess
              | Some Ops \<Rightarrow>
                  bind (zap_list Ops (NumUserOperands Obj) True w) (\<lambda>w1.
                  UserFree HungOffOperandList w1))
       else bind (ptr_sub Usr (sizeof_Use * NumUserOperands Obj)) (\<lambda>Storage.
              bind (zap Storage (ptr_add Storage (sizeof_Use * NumUserOperands Obj)) False w) (\<lambda>w1.
              UserFree Storage w1)))"

text \<open>\<^verbatim>\<open>User::operator delete(void *Usr, unsigned NumUserOperands)\<close>\<close>

definition operator_delete2 :: "ptr \<Rightarrow> nat \<Rightarrow> world \<Rightarrow> error + world" where
  "operator_delete2 Usr n w =
     bind (ptr_sub Usr (sizeof_Use * n)) (\<lambda>Storage.
       bind (zap Storage (ptr_add Storage (sizeof_Use * n)) False w) (\<lambda>w1.
       UserFree Storage w1))"

definition isa_Constant :: "value_kind \<Rightarrow> bool" where
  "isa_Constant k = (k = ConstantVal \<or> k = GlobalValueVal)"

definition isa_GlobalValue :: "value_kind \<Rightarrow> bool" where
  "isa_GlobalValue k = (k = GlobalValueVal)"

text \<open>The loop of \<^verbatim>\<open>replaceUsesOfWith\<close> from operand \<open>i\<close>, with \<open>n\<close> operands to go.\<close>

fun replace_loop :: "ptr \<Rightarrow> Value option \<Rightarrow> Value option \<Rightarrow> nat \<Rightarrow> nat \<Rightarrow> world \<Rightarrow> error + world" where
  "replace_loop U From To i 0 w = Inr w"
| "replace_loop U From To i (Suc n) w =
     bind (getOperand U i w) (\<lambda>v.
     bind (if v = From then setOperand U i To w else Inr w) (\<lambda>w1.
     replace_loop U From To (Suc i) n w1))"

definition replaceUsesOfWith :: "ptr \<Rightarrow> Value option \<Rightarrow> Value option \<Rightarrow> world \<Rightarrow> error + world" where
  "replaceUsesOfWith U From To w =
     (if From = To then Inr w
      else if \<not> (\<not> isa_Constant (SubclassID w U) \<or> isa_GlobalValue (SubclassID w U))
      then Inl AssertionFailed
      else bind (getNumOperands U w) (\<lambda>E. replace_loop U From To 0 E w))"

text \<open>
  The use-list of a Value as a list of Use addresses: the head slot holds the first one,
  every Use on it is alive, references the Value, has \<open>Prev\<close> pointing at the slot that
  holds it and \<open>Next\<close> holding the one after it.
\<close>

fun dll :: "world \<Rightarrow> Value \<Rightarrow> slot \<Rightarrow> ptr option \<Rightarrow> ptr list \<Rightarrow> bool" where
  "dll w v s p [] = (p = None)"
| "dll w v s p (u # us) =
     (p = Some u \<and>
      (case use_at w u of
         None \<Rightarrow> False
       | Some r \<Rightarrow> Val r = Some v \<and> Prev r = Some s \<and> dll w v (NextOf u) (Next r) us))"

definition use_list :: "world \<Rightarrow> Value \<Rightarrow> ptr list \<Rightarrow> bool" where
  "use_list w v us = dll w v (UseListOf v) (UseList w v) us"

text \<open>
  The use-lists of a world are \<open>L\<close>, up to the Uses in \<open>D\<close>, which are detached: every
  Value \<open>v\<close> has the well-formed use-list \<open>L v\<close>, and a live Use outside \<open>D\<close> that
  references \<open>v\<close> is on it.
\<close>

definition rep :: "ptr set \<Rightarrow> (Value \<Rightarrow> ptr list) \<Rightarrow> world \<Rightarrow> bool" where
  "rep D L w \<longleftrightarrow>
     (\<forall>v. use_list w v (L v) \<and> distinct (L v) \<and> set (L v) \<inter> D = {}) \<and>
     (\<forall>u r v. use_at w u = Some r \<longrightarrow> Val r = Some v \<longrightarrow> u \<notin> D \<longrightarrow> u \<in> set (L v))"

definition use_lists_ok :: "world \<Rightarrow> bool" where
  "use_lists_ok w \<longleftrightarrow> (\<exists>L. rep {} L w)"

text \<open>
  Two worlds differ in the links only: \<open>w'\<close> is \<open>w\<close> with other Uses and use-list heads,
  and outside \<open>X\<close> the same Uses are alive, with the same \<open>Val\<close> and \<open>Parent\<close>.
\<close>

definition relinked :: "ptr set \<Rightarrow> world \<Rightarrow> world \<Rightarrow> bool" where
  "relinked X w w' \<longleftrightarrow>
     (\<exists>U H. w' = w\<lparr>use_at := U, UseList := H\<rparr>) \<and>
     (\<forall>x. x \<notin> X \<longrightarrow>
        rel_option (\<lambda>a b. Val b = Val a \<and> Parent b = Parent a) (use_at w x) (use_at w' x))"

text \<open>The use-lists after a Use leaves the list of its Value, and after it enters one at the head.\<close>

definition unlink_from :: "Value option \<Rightarrow> ptr \<Rightarrow> (Value \<Rightarrow> ptr list) \<Rightarrow> Value \<Rightarrow> ptr list" where
  "unlink_from V u L = (case V of None \<Rightarrow> L | Some v \<Rightarrow> L(v := remove1 u (L v)))"

definition link_to :: "Value option \<Rightarrow> ptr \<Rightarrow> (Value \<Rightarrow> ptr list) \<Rightarrow> Value \<Rightarrow> ptr list" where
  "link_to V u L = (case V of None \<Rightarrow> L | Some v \<Rightarrow> L(v := u # L v))"

text \<open>
  A small world for examples: one inline User at \<open>Ptr 0 96\<close> with three operands at
  offsets 0, 32 and 64 of the same buffer; the first two reference Value 1 (use-list: offset
  0, then offset 32), the third references Value 2.
\<close>

definition demo_world :: world where
  "demo_world = world0\<lparr>heap_next := 1, heap_live := {0},
     use_at := [Ptr 0 0 \<mapsto> \<lparr>Val = Some 1, Next = Some (Ptr 0 32), Prev = Some (UseListOf 1),
                              Parent = Some (Ptr 0 96)\<rparr>,
                Ptr 0 32 \<mapsto> \<lparr>Val = Some 1, Next = None, Prev = Some (NextOf (Ptr 0 0)),
                              Parent = Some (Ptr 0 96)\<rparr>,
                Ptr 0 64 \<mapsto> \<lparr>Val = Some 2, Next = None, Prev = Some (UseListOf 2),
                              Parent = Some (Ptr 0 96)\<rparr>],
     UseList := (\<lambda>_. None)(1 := Some (Ptr 0 0), 2 := Some (Ptr 0 64)),
     user_at := [Ptr 0 96 \<mapsto> \<lparr>NumUserOperands = 3, HasHungOffUses = False\<rparr>]\<rparr>"

definition demo_lists :: "Value \<Rightarrow> ptr list" where
  "demo_lists = (\<lambda>_. [])(1 := [Ptr 0 0, Ptr 0 32], 2 := [Ptr 0 64])"

text \<open>\<^verbatim>\<open>a.swap(b); a.swap(b)\<close>\<close>

definition swap_twice :: "ptr \<Rightarrow> ptr \<Rightarrow> world \<Rightarrow> error + world" where
  "swap_twice a b w = bind (Use_swap a b w) (Use_swap a b)"

text \<open>A Use as its constructor leaves it, and the addresses of an array of \<open>n\<close> Uses.\<close>

definition fresh_Use :: "ptr \<Rightarrow> Use" where
  "fresh_Use P = \<lparr>Val = None, Next = None, Prev = None, Parent = Some P\<rparr>"

definition use_array :: "ptr \<Rightarrow> nat \<Rightarrow> ptr set" where
  "use_array Begin n = (\<lambda>i. ptr_add Begin (sizeof_Use * i)) ` {..<n}"

text \<open>
  After the Uses at the addresses \<open>A\<close> were destroyed: the use-lists are the former lists
  \<open>L\<close> without the addresses in \<open>A\<close>, no Use is alive at an address in \<open>A\<close>, and no
  use-list of the world holds an address in \<open>A\<close>.
\<close>

definition unlinked_all :: "(Value \<Rightarrow> ptr list) \<Rightarrow> ptr set \<Rightarrow> world \<Rightarrow> bool" where
  "unlinked_all L A w \<longleftrightarrow>
     rep {} (\<lambda>v. filter (\<lambda>x. x \<notin> A) (L v)) w \<and>
     (\<forall>p \<in> A. use_at w p = None) \<and>
     (\<forall>v us. use_list w v us \<longrightarrow> set us \<inter> A = {})"

text \<open>
  A second world for examples: a hung-off User at \<open>Ptr 0 8\<close> (its indirection slot at
  \<open>Ptr 0 0\<close>) with two operands in the buffer 1, the first referencing Value 1 and the
  second Value 2.
\<close>

definition hung_world :: world where
  "hung_world = world0\<lparr>heap_next := 2, heap_live := {0, 1},
     use_at := [Ptr 1 0 \<mapsto> \<lparr>Val = Some 1, Next = None, Prev = Some (UseListOf 1),
                              Parent = Some (Ptr 0 8)\<rparr>,
                Ptr 1 32 \<mapsto> \<lparr>Val = Some 2, Next = None, Prev = Some (UseListOf 2),
                              Parent = Some (Ptr 0 8)\<rparr>],
     UseList := (\<lambda>_. None)(1 := Some (Ptr 1 0), 2 := Some (Ptr 1 32)),
     user_at := [Ptr 0 8 \<mapsto> \<lparr>NumUserOperands = 2, HasHungOffUses = True\<rparr>],
     hungoff_at := [Ptr 0 0 \<mapsto> Some (Ptr 1 0)]\<rparr>"

definition hung_lists :: "Value \<Rightarrow> ptr list" where
  "hung_lists = (\<lambda>_. [])(1 := [Ptr 1 0], 2 := [Ptr 1 32])"

text \<open>
  None of the \<open>n\<close> Use-sized cells from \<open>Begin\<close> holds a Use that is on a use-list;
  and: every Use in the buffer of \<open>Begin\<close>, other than the \<open>n\<close> Uses from \<open>Begin\<close>, is
  on no use-list.
\<close>

definition unlinked_storage :: "ptr \<Rightarrow> nat \<Rightarrow> world \<Rightarrow> bool" where
  "unlinked_storage Begin n w \<longleftrightarrow>
     (\<forall>p \<in> use_array Begin n. \<forall>r. use_at w p = Some r \<longrightarrow> Val r = None)"

definition others_unlinked :: "ptr \<Rightarrow> nat \<Rightarrow> world \<Rightarrow> bool" where
  "others_unlinked Begin n w \<longleftrightarrow>
     (\<forall>p r. buffer p = buffer Begin \<and> p \<notin> use_array Begin n \<and> use_at w p = Some r
            \<longrightarrow> Val r = None)"

text \<open>
  What \<open>UserFree p\<close> does with \<open>p\<close>, read off its two branches and the two branches of
  \<open>Free\<close>. \<open>releases\<close>: the buffer of \<open>p\<close> goes to the platform deallocator (no arena is
  installed, or the tag at \<open>p\<close> is \<open>InvalidBucket\<close>). \<open>freeable\<close>: the call is defined
  (a buffer that goes to the platform is live and \<open>p\<close> is its start; otherwise the tag at
  \<open>p\<close> can be read). \<open>disposed\<close>: what has happened to \<open>p\<close> between two worlds, either
  its buffer is no longer live, with the arena as it was, or the live buffers are the same
  and \<open>p\<close> is the slot that the bucket of its tag hands out next.
\<close>

definition releases :: "ptr \<Rightarrow> world \<Rightarrow> bool" where
  "releases p w \<longleftrightarrow>
     (case g_ThreadUserAllocatorTls w of
        None \<Rightarrow> True
      | Some a \<Rightarrow> PrivateAllocatorData w p = Some InvalidBucket)"

definition freeable :: "ptr \<Rightarrow> world \<Rightarrow> bool" where
  "freeable p w \<longleftrightarrow>
     (if releases p w then offset p = 0 \<and> buffer p \<in> heap_live w
      else PrivateAllocatorData w p \<noteq> None)"

definition disposed :: "ptr \<Rightarrow> world \<Rightarrow> world \<Rightarrow> bool" where
  "disposed p w w' \<longleftrightarrow>
     (if releases p w
      then heap_live w' = heap_live w - {buffer p}
         \<and> g_ThreadUserAllocatorTls w' = g_ThreadUserAllocatorTls w
      else heap_live w' = heap_live w
         \<and> (\<exists>a t a' a''. g_ThreadUserAllocatorTls w = Some a \<and> PrivateAllocatorData w p = Some t
               \<and> g_ThreadUserAllocatorTls w' = Some a' \<and> Blocks a' = Blocks a
               \<and> TryPopFree a' t = Some (p, a'')))"

text \<open>
  The buffers that \<open>operator delete\<close> of \<open>Usr\<close> gives back to the platform hold no Use
  that is on a use-list, apart from the operand Uses, which it destroys first. Inline: the
  buffer of the base, when \<open>UserFree\<close> releases it. Hung-off: the buffer of the operand
  array, and the buffer of the slot when \<open>UserFree\<close> releases it.
\<close>

definition delete_leaves_unlinked :: "ptr \<Rightarrow> world \<Rightarrow> bool" where
  "delete_leaves_unlinked Usr w \<longleftrightarrow>
     (\<forall>Obj. user_at w Usr = Some Obj \<longrightarrow>
        (if HasHungOffUses Obj
         then (\<forall>Slot. ptr_sub Usr sizeof_ptr = Inr Slot \<longrightarrow>
                 (\<forall>Begin. hungoff_at w Slot = Some (Some Begin) \<longrightarrow>
                    others_unlinked Begin (NumUserOperands Obj) w)
               \<and> (releases Slot w \<longrightarrow> others_unlinked Slot 0 w))
         else (\<forall>Storage. ptr_sub Usr (sizeof_Use * NumUserOperands Obj) = Inr Storage \<longrightarrow>
                 releases Storage w \<longrightarrow> others_unlinked Storage (NumUserOperands Obj) w)))"

text \<open>
  The platform heap, the Uses and the indirection slots agree: a Use lives in a live
  buffer, and the live buffers and the operand arrays that the indirection slots point at
  are among the buffers that the platform has handed out.
\<close>

definition heap_ok :: "world \<Rightarrow> bool" where
  "heap_ok w \<longleftrightarrow>
     (\<forall>p. use_at w p \<noteq> None \<longrightarrow> buffer p \<in> heap_live w) \<and>
     (\<forall>b \<in> heap_live w. b < heap_next w) \<and>
     (\<forall>s p. hungoff_at w s = Some (Some p) \<longrightarrow> buffer p < heap_next w)"

definition consistent :: "world \<Rightarrow> bool" where
  "consistent w \<longleftrightarrow> use_lists_ok w \<and> heap_ok w"

text \<open>
  The states that the subsystem's operations reach from the initial world when memory is
  handled the way the operations expect it. \<open>operator new\<close> constructs Uses by placement
  over what \<open>UserAlloc\<close> returned: that storage lies in a live buffer and holds no Use
  that is on a use-list. An operation that gives a buffer back to the platform destroys the
  Uses it knows of first: the buffer holds no other Use that is on a use-list. Every other
  successful call is a step.
\<close>

inductive reachable :: "world \<Rightarrow> bool" where
  init: "reachable world0"
| new: "reachable w \<Longrightarrow> operator_new Size Us w = Inr (Obj, w') \<Longrightarrow>
        ptr_sub Obj (sizeof_Use * Us) = Inr Storage \<Longrightarrow>
        buffer Storage \<in> heap_live w' \<Longrightarrow> unlinked_storage Storage Us w \<Longrightarrow>
        reachable w'"
| new_hungoff: "reachable w \<Longrightarrow> operator_new_hungoff Size w = Inr (Obj, w') \<Longrightarrow> reachable w'"
| alloc_hungoff: "reachable w \<Longrightarrow> allocHungoffUses U N IsPhi w = Inr w' \<Longrightarrow> reachable w'"
| set_count: "reachable w \<Longrightarrow> setNumHungOffUseOperands U N w = Inr w' \<Longrightarrow> reachable w'"
| grow_hungoff: "reachable w \<Longrightarrow> growHungoffUses U N IsPhi w = Inr w' \<Longrightarrow>
        getOperandList U w = Inr Ops \<Longrightarrow> getNumOperands U w = Inr n \<Longrightarrow>
        (\<forall>Old. Ops = Some Old \<longrightarrow> others_unlinked Old n w) \<Longrightarrow>
        reachable w'"
| set: "reachable w \<Longrightarrow> Use_set u V w = Inr w' \<Longrightarrow> reachable w'"
| set_operand: "reachable w \<Longrightarrow> setOperand U i V w = Inr w' \<Longrightarrow> reachable w'"
| replace_uses: "reachable w \<Longrightarrow> replaceUsesOfWith U From To w = Inr w' \<Longrightarrow> reachable w'"
| swap: "reachable w \<Longrightarrow> Use_swap a b w = Inr w' \<Longrightarrow> reachable w'"
| zap: "reachable w \<Longrightarrow> zap Start Stop del w = Inr w' \<Longrightarrow>
        (del \<longrightarrow> (\<exists>k. Stop = ptr_add Start (sizeof_Use * k) \<and> others_unlinked Start k w)) \<Longrightarrow>
        reachable w'"
| delete: "reachable w \<Longrightarrow> operator_delete Usr w = Inr w' \<Longrightarrow>
        delete_leaves_unlinked Usr w \<Longrightarrow> reachable w'"
| delete2: "reachable w \<Longrightarrow> operator_delete2 Usr n w = Inr w' \<Longrightarrow>
        (\<forall>Storage. ptr_sub Usr (sizeof_Use * n) = Inr Storage \<longrightarrow> releases Storage w \<longrightarrow>
           others_unlinked Storage n w) \<Longrightarrow>
        reachable w'"
| thread_ctor: "reachable w \<Longrightarrow> UserThreadAlloc_ctor w = Inr w' \<Longrightarrow> reachable w'"
| thread_dtor: "reachable w \<Longrightarrow> UserThreadAlloc_dtor w = Inr w' \<Longrightarrow>
        (\<forall>a. g_ThreadUserAllocatorTls w = Some a \<longrightarrow>
           (\<forall>b \<in> set (Blocks a). others_unlinked (Blob b) 0 w)) \<Longrightarrow>
        reachable w'"

text \<open>
  A hung-off User whose operand count was never set: \<open>operator new\<close> of the hung-off
  shape, \<open>allocHungoffUses\<close> for two operands, \<open>setOperand\<close> of operand 0 to Value 1,
  \<open>operator delete\<close>.
\<close>

definition delete_uncounted :: "world \<Rightarrow> error + world" where
  "delete_uncounted w =
     bind (operator_new_hungoff 64 w) (\<lambda>(U, w1).
       bind (allocHungoffUses U 2 False w1) (\<lambda>w2.
         bind (setOperand U 0 (Some 1) w2) (\<lambda>w3.
           operator_delete U w3)))"

text \<open>
  The world that this sequence leaves behind from the initial world: both buffers are back
  with the platform, no Use is alive, and the use-list head of Value 1 still holds the
  address of the Use that was operand 0.
\<close>

definition dangling_world :: world where
  "dangling_world = world0\<lparr>heap_next := 2, heap_live := {},
     UseList := (\<lambda>_. None)(1 := Some (Ptr 1 0)),
     user_at := [Ptr 0 8 \<mapsto> \<lparr>NumUserOperands = 0, HasHungOffUses = True\<rparr>],
     hungoff_at := [Ptr 0 0 \<mapsto> Some (Ptr 1 0)]\<rparr>"

text \<open>
  A fallback allocation that outlives the installation of an arena: \<open>UserAlloc\<close> with
  the slot as it is, then the constructor of the scoped arena object, then \<open>UserFree\<close> of
  the pointer.
\<close>

definition free_after_install :: "nat \<Rightarrow> world \<Rightarrow> error + world" where
  "free_after_install Size w =
     bind (UserAlloc Size w) (\<lambda>(p, w1).
       bind (UserThreadAlloc_ctor w1) (\<lambda>w2. UserFree p w2))"

text \<open>
  A third world for examples: the initial world after the scoped arena object was
  constructed and 8 bytes were allocated; the arena has one block, buffer 0, with 8 bytes
  carved off and tagged with bucket 3.
\<close>

definition arena_world :: world where
  "arena_world = world0\<lparr>heap_next := 1, heap_live := {0},
     PrivateAllocatorData := [Ptr 0 0 \<mapsto> 3],
     g_ThreadUserAllocatorTls := Some \<lparr>Blocks = [\<lparr>Blob = Ptr 0 0, Offset = 8\<rparr>], Buckets = []\<rparr>\<rparr>"

text \<open>
  Two more worlds for examples. \<open>arena_user_world\<close>: the initial world after the scoped
  arena object was constructed and \<^verbatim>\<open>new (0) User\<close> of an 8-byte class ran; the User
  lies at the base of its allocation, which carries the tag 3. \<open>hung_null_world\<close>: the
  initial world after \<^verbatim>\<open>new User\<close> of the hung-off shape for a 64-byte class, with no
  arena; the indirection slot holds the null pointer.
\<close>

definition arena_user_world :: world where
  "arena_user_world =
     arena_world\<lparr>user_at := [Ptr 0 0 \<mapsto> \<lparr>NumUserOperands = 0, HasHungOffUses = False\<rparr>]\<rparr>"

definition hung_null_world :: world where
  "hung_null_world = world0\<lparr>heap_next := 1, heap_live := {0},
     user_at := [Ptr 0 8 \<mapsto> \<lparr>NumUserOperands = 0, HasHungOffUses = True\<rparr>],
     hungoff_at := [Ptr 0 0 \<mapsto> None]\<rparr>"

section \<open>Properties of the arena allocator\<close>


lemma bind_Inr [simp]: "bind (Inr x) f = f x"
  by (simp add: bind_def)

lemma bind_Inl [simp]: "bind (Inl e) f = Inl e"
  by (simp add: bind_def)

lemma release_simps [simp]:
  "heap_live (release B w) = heap_live w - B"
  "heap_next (release B w) = heap_next w"
  "use_at (release B w) p = (if buffer p \<in> B then None else use_at w p)"
  "UseList (release B w) = UseList w"
  "user_at (release B w) = user_at w"
  "hungoff_at (release B w) = hungoff_at w"
  "bb_at (release B w) = bb_at w"
  "PrivateAllocatorData (release B w) = PrivateAllocatorData w"
  "g_ThreadUserAllocatorTls (release B w) = g_ThreadUserAllocatorTls w"
  "SubclassID (release B w) = SubclassID w"
  by (simp_all add: release_def)

lemma release_release: "release A (release B w) = release (B \<union> A) w"
  by (rule world.equality) (auto simp: release_def fun_eq_iff)

lemma release_empty [simp]: "release {} w = w"
  by (simp add: release_def)

lemma release_slot [simp]:
  "release B (w\<lparr>g_ThreadUserAllocatorTls := x\<rparr>) = (release B w)\<lparr>g_ThreadUserAllocatorTls := x\<rparr>"
  by (rule world.equality) (auto simp: release_def fun_eq_iff)

lemma bind_eq_Inr: "bind m f = Inr y \<longleftrightarrow> (\<exists>x. m = Inr x \<and> f x = Inr y)"
  by (cases m) simp_all

lemma msb_index_bounds: "0 < n \<Longrightarrow> 2 ^ msb_index n \<le> n \<and> n < 2 ^ Suc (msb_index n)"
proof (induction n rule: msb_index.induct)
  case (1 n)
  show ?case
  proof (cases "n < 2")
    case True
    with 1 show ?thesis by (simp add: msb_index.simps)
  next
    case False
    then have "0 < n div 2" by simp
    with 1 False have IH: "2 ^ msb_index (n div 2) \<le> n div 2 \<and> n div 2 < 2 ^ Suc (msb_index (n div 2))" by blast
    have m: "msb_index n = Suc (msb_index (n div 2))" using False by (simp add: msb_index.simps)
    from IH show ?thesis unfolding m by (simp; linarith)
  qed
qed

lemma pow2_less_imp: "(2::nat) ^ a \<le> n \<Longrightarrow> n < 2 ^ b \<Longrightarrow> a < b"
  by (meson le_less_trans power_less_imp_less_exp one_less_numeral_iff semiring_norm(76))

lemma msb_index_unique: "2 ^ k \<le> n \<Longrightarrow> n < 2 ^ Suc k \<Longrightarrow> msb_index n = k"
proof -
  assume a: "2 ^ k \<le> n" "n < 2 ^ Suc k"
  then have pos: "0 < n" by (metis gr0I not_less zero_less_numeral zero_less_power leD)
  from msb_index_bounds[OF pos] have b: "2 ^ msb_index n \<le> n" "n < 2 ^ Suc (msb_index n)" by auto
  have "msb_index n < Suc k" using b(1) a(2) by (rule pow2_less_imp)
  moreover have "k < Suc (msb_index n)" using a(1) b(2) by (rule pow2_less_imp)
  ultimately show ?thesis by simp
qed

lemma msb_index_pow: "msb_index (2 ^ k) = k"
  by (rule msb_index_unique) simp_all

lemma msb_index_le_12: "0 < n \<Longrightarrow> n \<le> 4096 \<Longrightarrow> msb_index n \<le> 12"
proof -
  assume a: "0 < n" "n \<le> 4096"
  have "2 ^ msb_index n \<le> n" using msb_index_bounds[OF a(1)] by simp
  moreover have "n < 2 ^ 13" using a(2) by simp
  ultimately have "msb_index n < 13" by (rule pow2_less_imp)
  then show ?thesis by simp
qed

lemma pow2_le_12: "k \<le> 12 \<Longrightarrow> (2::nat) ^ k < 2 ^ 32"
  by (rule power_strict_increasing) simp_all

lemma GetFreeBucketIndex_small:
  assumes "0 < S" "S \<le> 4096"
  shows "GetFreeBucketIndex S = Inr (msb_index S)"
proof -
  have k: "msb_index S \<le> 12" using assms by (rule msb_index_le_12)
  have "(2::nat) ^ msb_index S mod 2 ^ 32 = 2 ^ msb_index S"
    using pow2_le_12[OF k] by simp
  then show ?thesis using assms(1)
    by (simp add: GetFreeBucketIndex_def PowerOf2Floor_def BitScanReverse_def msb_index_pow)
qed

lemma msb_index_1: "msb_index (Suc 0) = 0"
  by (subst msb_index.simps) simp

lemma msb_index_0: "msb_index 0 = 0"
  by (subst msb_index.simps) simp

lemma GetReuseBucketIndex_le_1: "S \<le> 1 \<Longrightarrow> GetReuseBucketIndex S = Inr 0"
  by (simp add: GetReuseBucketIndex_def NextPowerOf2_def BitScanReverse_def msb_index_1)

lemma GetReuseBucketIndex_range:
  assumes "2 ^ k < 2 * S" "S \<le> 2 ^ k" "k \<le> 12"
  shows "GetReuseBucketIndex S = Inr k"
proof (cases "S \<le> 1")
  case True
  have "k = 0"
  proof (rule ccontr)
    assume "k \<noteq> 0"
    then have "(2::nat) ^ 1 \<le> 2 ^ k" by (intro power_increasing) simp_all
    with assms(1) True show False by simp
  qed
  with True show ?thesis by (simp add: GetReuseBucketIndex_le_1)
next
  case False
  then have "2 \<le> S" by simp
  with assms(2) have "k \<noteq> 0" by (cases k) auto
  then obtain j where j: "k = Suc j" by (cases k) auto
  have "2 ^ j \<le> S - 1" "S - 1 < 2 ^ Suc j" using assms(1,2) False unfolding j by simp_all
  then have "msb_index (S - 1) = j" by (rule msb_index_unique)
  then have np: "NextPowerOf2 S = 2 ^ k" using False by (simp add: NextPowerOf2_def j)
  have "(2::nat) ^ k mod 2 ^ 32 = 2 ^ k" using pow2_le_12[OF assms(3)] by simp
  then show ?thesis
    by (simp add: GetReuseBucketIndex_def np BitScanReverse_def msb_index_pow)
qed

lemma GetReuseBucketIndex_small:
  assumes "S \<le> 4096"
  shows "\<exists>r. GetReuseBucketIndex S = Inr r \<and> r \<le> 12"
proof (cases "S \<le> 1")
  case True
  then show ?thesis by (simp add: GetReuseBucketIndex_le_1)
next
  case False
  then have pos: "0 < S - 1" by simp
  have "2 ^ msb_index (S - 1) \<le> S - 1" using msb_index_bounds[OF pos] by simp
  moreover have "S - 1 < 2 ^ 12" using assms False by simp
  ultimately have "msb_index (S - 1) < 12" by (rule pow2_less_imp)
  then have k: "Suc (msb_index (S - 1)) \<le> 12" by simp
  have np: "NextPowerOf2 S = 2 ^ Suc (msb_index (S - 1))" using False by (simp add: NextPowerOf2_def)
  have "(2::nat) ^ Suc (msb_index (S - 1)) mod 2 ^ 32 = 2 ^ Suc (msb_index (S - 1))"
    using pow2_le_12[OF k] by (simp del: power_Suc)
  then show ?thesis using k
    by (simp add: GetReuseBucketIndex_def np BitScanReverse_def msb_index_pow del: power_Suc)
qed

lemma Free_then_Allocate:
  assumes "PrivateAllocatorData w p = Some k" "k \<noteq> InvalidBucket"
    and "GetReuseBucketIndex S' = Inr k" "S' \<le> LargeAllocationThreshold"
  shows "\<exists>a2 a3. Free a p w = Inr (a2, w) \<and> Allocate a2 S' w = Inr (p, a3, w)"
  using assms
  by (simp add: Free_def GetPrivateData_def Allocate_def TryPopFree_def GetBucketFor_def Let_def nth_append)


lemma carve_result:
  assumes "0 < S" "S \<le> 4096"
  shows "\<exists>p a1 w1. carve a S w = Inr (p, a1, w1) \<and> PrivateAllocatorData w1 p = Some (msb_index S)"
proof -
  have k: "msb_index S \<le> 12" using assms by (rule msb_index_le_12)
  then have k': "msb_index S \<le> 2 ^ AllocationBits" "msb_index S mod 2 ^ AllocationBits = msb_index S"
    by (simp_all add: AllocationBits_def)
  obtain a1 w1 where g: "GetFirstBlockFor a S w = (a1, w1)" by fastforce
  define Data where "Data = ptr_add (Blob (last (Blocks a1))) (Offset (last (Blocks a1)))"
  have "\<exists>a2. carve a S w = Inr (Data, a2, SetPrivateData Data (msb_index S) w1)"
    using k'(1) by (simp add: carve_def g GetFreeBucketIndex_small[OF assms] Let_def Data_def)
  moreover have "PrivateAllocatorData (SetPrivateData Data (msb_index S) w1) Data = Some (msb_index S)"
    using k'(2) by (simp add: SetPrivateData_def)
  ultimately show ?thesis by blast
qed

lemma TryPopFree_tagged:
  assumes "arena_tagged a w" "TryPopFree a r = Some (q, a1)"
  shows "PrivateAllocatorData w q = Some r"
proof -
  from assms(2) have r: "r < length (Buckets a)" "FreeUsers (Buckets a ! r) \<noteq> []"
    and q: "q = last (FreeUsers (Buckets a ! r))"
    by (auto simp: TryPopFree_def split: if_splits)
  from r(2) q have "q \<in> set (FreeUsers (Buckets a ! r))" by simp
  with assms(1) r(1) show ?thesis unfolding arena_tagged_def by blast
qed

text \<open>
  Claim C2, as amended. For a size \<open>S\<close> with \<open>1 \<le> S \<le> LargeAllocationThreshold\<close>, in an
  arena whose cached slots carry their bucket as tag, \<open>Allocate S\<close> returns a pointer
  \<open>p\<close> that carries a bucket tag \<open>k\<close>; \<open>k\<close> is the floor-log2 of \<open>S\<close> when the slot
  was carved fresh from a block. After \<open>Free p\<close>, \<open>Allocate S'\<close> returns the same address
  \<open>p\<close> for every \<open>S'\<close> whose reuse bucket is \<open>k\<close>, that is for
  \<open>2 ^ k < 2 * S'\<close> and \<open>S' \<le> 2 ^ k\<close>.
\<close>

theorem arena_reuse_same_bucket:
  assumes "1 \<le> S" "S \<le> LargeAllocationThreshold" "arena_tagged a w"
  shows "\<exists>p a1 w1 k. Allocate a S w = Inr (p, a1, w1) \<and> PrivateAllocatorData w1 p = Some k
           \<and> ((\<exists>r. GetReuseBucketIndex S = Inr r \<and> TryPopFree a r = None) \<longrightarrow> k = msb_index S)
           \<and> (\<forall>S'. 2 ^ k < 2 * S' \<and> S' \<le> 2 ^ k \<longrightarrow> alloc_free_alloc a w S S' = Inr (p, p))"
proof -
  from assms have S: "0 < S" "S \<le> 4096" by (simp_all add: LargeAllocationThreshold_def)
  obtain r where r: "GetReuseBucketIndex S = Inr r" "r \<le> 12"
    using GetReuseBucketIndex_small[OF S(2)] by blast
  have small: "\<not> LargeAllocationThreshold < S" using assms(2) by simp
  have "\<exists>p a1 w1 k. Allocate a S w = Inr (p, a1, w1) \<and> PrivateAllocatorData w1 p = Some k \<and> k \<le> 12
           \<and> (TryPopFree a r = None \<longrightarrow> k = msb_index S)"
  proof (cases "TryPopFree a r")
    case None
    obtain p a1 w1 where c: "carve a S w = Inr (p, a1, w1)"
      "PrivateAllocatorData w1 p = Some (msb_index S)"
      using carve_result[OF S] by blast
    have "Allocate a S w = Inr (p, a1, w1)" using small r(1) None c(1) by (simp add: Allocate_def)
    with c(2) msb_index_le_12[OF S] show ?thesis by blast
  next
    case (Some qa)
    obtain q a1 where qa: "qa = (q, a1)" by (cases qa)
    have t: "PrivateAllocatorData w q = Some r"
      using assms(3) Some unfolding qa by (rule TryPopFree_tagged)
    have "Allocate a S w = Inr (q, a1, w)" using small r(1) Some qa by (simp add: Allocate_def)
    with t r(2) Some show ?thesis by auto
  qed
  then obtain p a1 w1 k where A: "Allocate a S w = Inr (p, a1, w1)"
    and t: "PrivateAllocatorData w1 p = Some k" and k: "k \<le> 12"
    and c: "TryPopFree a r = None \<longrightarrow> k = msb_index S" by (elim exE conjE)
  have kI: "k \<noteq> InvalidBucket" using k by (simp add: InvalidBucket_def AllocationBits_def)
  have "alloc_free_alloc a w S S' = Inr (p, p)" if h: "2 ^ k < 2 * S'" "S' \<le> 2 ^ k" for S'
  proof -
    have i: "GetReuseBucketIndex S' = Inr k" using h k by (rule GetReuseBucketIndex_range)
    have "(2::nat) ^ k \<le> 2 ^ 12" using k by (intro power_increasing) simp_all
    with h(2) have l: "S' \<le> LargeAllocationThreshold" by (simp add: LargeAllocationThreshold_def)
    obtain a2 a3 where "Free a1 p w1 = Inr (a2, w1)" "Allocate a2 S' w1 = Inr (p, a3, w1)"
      using Free_then_Allocate[OF t kI i l] by blast
    with A show ?thesis by (simp add: alloc_free_alloc_def)
  qed
  with A t c r(1) show ?thesis by auto
qed

lemma arena_tagged_new: "arena_tagged new_UserBlockAllocator w"
  by (simp add: arena_tagged_def new_UserBlockAllocator_def)

lemma msb_index_8: "msb_index 8 = 3"
  using msb_index_pow[of 3] by simp

text \<open>
  The theorem at a fresh arena with \<open>S = 8\<close> and \<open>S' = 5\<close>: both allocations return the
  start of the first block.
\<close>

theorem arena_reuse_same_bucket_witness:
  "(1::nat) \<le> 8 \<and> 8 \<le> LargeAllocationThreshold \<and> arena_tagged new_UserBlockAllocator world0
   \<and> TryPopFree new_UserBlockAllocator 3 = None \<and> GetReuseBucketIndex 8 = Inr 3
   \<and> (2::nat) ^ 3 < 2 * 5 \<and> (5::nat) \<le> 2 ^ 3
   \<and> alloc_free_alloc new_UserBlockAllocator world0 8 5 = Inr (Ptr 0 0, Ptr 0 0)"
proof -
  have h1: "(1::nat) \<le> 8" by simp
  have h2: "8 \<le> LargeAllocationThreshold" by (simp add: LargeAllocationThreshold_def)
  have pop: "TryPopFree new_UserBlockAllocator 3 = None"
    by (simp add: TryPopFree_def new_UserBlockAllocator_def)
  have idx: "GetReuseBucketIndex 8 = Inr 3"
    using GetReuseBucketIndex_range[of 3 8] by simp
  obtain p a1 w1 k where A: "Allocate new_UserBlockAllocator 8 world0 = Inr (p, a1, w1)"
    and k: "(\<exists>r. GetReuseBucketIndex 8 = Inr r \<and> TryPopFree new_UserBlockAllocator r = None) \<longrightarrow> k = msb_index 8"
    and R: "\<forall>S'. 2 ^ k < 2 * S' \<and> S' \<le> 2 ^ k \<longrightarrow>
              alloc_free_alloc new_UserBlockAllocator world0 8 S' = Inr (p, p)"
    using arena_reuse_same_bucket[OF h1 h2 arena_tagged_new, of world0] by blast
  from k pop idx have k3: "k = 3" by (auto simp: msb_index_8)
  have "p = (Ptr 0 0)" using A pop idx
    by (simp add: Allocate_def LargeAllocationThreshold_def carve_def GetFirstBlockFor_def
        new_UserBlockAllocator_def platform_new_def world0_def Let_def ptr_add_def
        GetFreeBucketIndex_small msb_index_8 AllocationBits_def)
  moreover have "alloc_free_alloc new_UserBlockAllocator world0 8 5 = Inr (p, p)"
    using R unfolding k3 by simp
  ultimately show ?thesis using h2 pop idx arena_tagged_new by simp
qed

text \<open>
  Claim C2 as the spec words it fails: \<open>S = 8\<close> is freed into bucket 3, and the request
  \<open>S' = 2 \<le> 2 ^ 3\<close> consults bucket 1, finds it empty and carves a new slot at offset 8.
\<close>

theorem arena_reuse_smaller_request_counterexample:
  "(8::nat) \<le> LargeAllocationThreshold \<and> (2::nat) \<le> 2 ^ msb_index 8
   \<and> alloc_free_alloc new_UserBlockAllocator world0 8 2 = Inr (Ptr 0 0, Ptr 0 8)"
proof -
  have i2: "GetReuseBucketIndex 2 = Inr 1" using GetReuseBucketIndex_range[of 1 2] by simp
  have i8: "GetReuseBucketIndex 8 = Inr 3" using GetReuseBucketIndex_range[of 3 8] by simp
  have f8: "GetFreeBucketIndex 8 = Inr 3" using GetFreeBucketIndex_small[of 8] by (simp add: msb_index_8)
  have f2: "GetFreeBucketIndex 2 = Inr 1" using GetFreeBucketIndex_small[of 2] msb_index_pow[of 1] by simp
  show ?thesis
    by (simp add: alloc_free_alloc_def Allocate_def LargeAllocationThreshold_def carve_def
        GetFirstBlockFor_def new_UserBlockAllocator_def platform_new_def world0_def Let_def
        ptr_add_def i2 i8 f8 f2 AllocationBits_def msb_index_8 TryPopFree_def Free_def
        GetPrivateData_def SetPrivateData_def InvalidBucket_def GetBucketFor_def BlockSize_def)
qed


lemma InvalidBucket_stored: "InvalidBucket mod 2 ^ AllocationBits = InvalidBucket"
  by (simp add: InvalidBucket_def AllocationBits_def)

lemma Allocate_large:
  "LargeAllocationThreshold < S \<Longrightarrow>
   Allocate a S w = Inr (fst (platform_new w), a,
                         SetPrivateData (fst (platform_new w)) InvalidBucket (snd (platform_new w)))"
  by (simp add: Allocate_def split: prod.split)

lemma Free_InvalidBucket:
  "PrivateAllocatorData w p = Some InvalidBucket \<Longrightarrow>
   Free a p w = bind (platform_delete p w) (\<lambda>w1. Inr (a, w1))"
  by (simp add: Free_def GetPrivateData_def)

text \<open>
  Claim C8. For every size above \<open>LargeAllocationThreshold\<close>, \<open>Allocate\<close> takes the
  memory from the platform and tags it \<open>InvalidBucket\<close>; \<open>Free\<close> hands such a pointer to
  the platform deallocator; allocating the size again takes platform memory tagged
  \<open>InvalidBucket\<close> again. The arena itself (blocks and buckets) is the same after each of
  the three steps, so no slot is pushed or popped.
\<close>

theorem large_allocation_bypass:
  assumes "LargeAllocationThreshold < S"
  shows "\<exists>p w1 w2 q w3.
           Allocate a S w = Inr (p, a, w1) \<and> p = fst (platform_new w)
         \<and> PrivateAllocatorData w1 p = Some InvalidBucket
         \<and> Free a p w1 = Inr (a, w2) \<and> platform_delete p w1 = Inr w2
         \<and> Allocate a S w2 = Inr (q, a, w3) \<and> q = fst (platform_new w2)
         \<and> PrivateAllocatorData w3 q = Some InvalidBucket"
proof -
  define p where "p = fst (platform_new w)"
  define w1 where "w1 = SetPrivateData p InvalidBucket (snd (platform_new w))"
  define w2 where "w2 = release {buffer p} w1"
  define q where "q = fst (platform_new w2)"
  define w3 where "w3 = SetPrivateData q InvalidBucket (snd (platform_new w2))"
  have A1: "Allocate a S w = Inr (p, a, w1)"
    using Allocate_large[OF assms] by (simp add: p_def w1_def)
  have t1: "PrivateAllocatorData w1 p = Some InvalidBucket"
    by (simp add: w1_def SetPrivateData_def InvalidBucket_stored)
  have d: "platform_delete p w1 = Inr w2"
    by (simp add: platform_delete_def w2_def w1_def p_def platform_new_def SetPrivateData_def)
  have F: "Free a p w1 = Inr (a, w2)"
    using Free_InvalidBucket[OF t1] d by simp
  have A2: "Allocate a S w2 = Inr (q, a, w3)"
    using Allocate_large[OF assms] by (simp add: q_def w3_def)
  have t3: "PrivateAllocatorData w3 q = Some InvalidBucket"
    by (simp add: w3_def SetPrivateData_def InvalidBucket_stored)
  have "Allocate a S w = Inr (p, a, w1) \<and> p = fst (platform_new w)
         \<and> PrivateAllocatorData w1 p = Some InvalidBucket
         \<and> Free a p w1 = Inr (a, w2) \<and> platform_delete p w1 = Inr w2
         \<and> Allocate a S w2 = Inr (q, a, w3) \<and> q = fst (platform_new w2)
         \<and> PrivateAllocatorData w3 q = Some InvalidBucket"
    using A1 t1 F d A2 t3 p_def q_def by simp
  then show ?thesis by (rule_tac x = p in exI, rule_tac x = w1 in exI, rule_tac x = w2 in exI,
        rule_tac x = q in exI, rule_tac x = w3 in exI)
qed

text \<open>The theorem at a fresh arena and the size 5000.\<close>

theorem large_allocation_bypass_witness:
  "LargeAllocationThreshold < 5000
   \<and> (\<exists>w1 w2 w3. Allocate new_UserBlockAllocator 5000 world0 = Inr (Ptr 0 0, new_UserBlockAllocator, w1)
         \<and> PrivateAllocatorData w1 (Ptr 0 0) = Some InvalidBucket
         \<and> Free new_UserBlockAllocator (Ptr 0 0) w1 = Inr (new_UserBlockAllocator, w2)
         \<and> Allocate new_UserBlockAllocator 5000 w2 = Inr (Ptr 1 0, new_UserBlockAllocator, w3)
         \<and> PrivateAllocatorData w3 (Ptr 1 0) = Some InvalidBucket)"
proof -
  have h: "LargeAllocationThreshold < 5000" by (simp add: LargeAllocationThreshold_def)
  obtain p w1 w2 q w3 where
    r: "Allocate new_UserBlockAllocator 5000 world0 = Inr (p, new_UserBlockAllocator, w1)"
       "p = fst (platform_new world0)"
       "PrivateAllocatorData w1 p = Some InvalidBucket"
       "Free new_UserBlockAllocator p w1 = Inr (new_UserBlockAllocator, w2)"
       "platform_delete p w1 = Inr w2"
       "Allocate new_UserBlockAllocator 5000 w2 = Inr (q, new_UserBlockAllocator, w3)"
       "q = fst (platform_new w2)"
       "PrivateAllocatorData w3 q = Some InvalidBucket"
    using large_allocation_bypass[OF h, of new_UserBlockAllocator world0] by (elim exE conjE)
  have p: "p = (Ptr 0 0)" using r(2) by (simp add: platform_new_def world0_def)
  have "w1 = SetPrivateData p InvalidBucket (snd (platform_new world0))"
    using r(1) Allocate_large[OF h, of new_UserBlockAllocator world0] by auto
  then have "heap_next w1 = 1" by (simp add: SetPrivateData_def platform_new_def world0_def)
  moreover have "heap_next w2 = heap_next w1"
    using r(5) by (auto simp: platform_delete_def split: if_splits)
  ultimately have q: "q = (Ptr 1 0)" using r(7) by (simp add: platform_new_def)
  from h r p q show ?thesis by auto
qed

lemma delete_Blocks_live:
  "distinct (map Blob bs) \<Longrightarrow> \<forall>b \<in> set bs. offset (Blob b) = 0 \<and> buffer (Blob b) \<in> heap_live w \<Longrightarrow>
   delete_Blocks bs w = Inr (release (buffer ` Blob ` set bs) w)"
proof (induction bs arbitrary: w)
  case Nil
  then show ?case by simp
next
  case (Cons b bs)
  let ?w1 = "release {buffer (Blob b)} w"
  have d: "platform_delete (Blob b) w = Inr ?w1"
    using Cons.prems(2) by (simp add: platform_delete_def)
  have "\<forall>c \<in> set bs. offset (Blob c) = 0 \<and> buffer (Blob c) \<in> heap_live ?w1"
  proof
    fix c assume c: "c \<in> set bs"
    with Cons.prems(1) have "Blob c \<noteq> Blob b" by (metis distinct.simps(2) image_eqI list.simps(9) set_map)
    moreover have "offset (Blob c) = 0" "offset (Blob b) = 0" "buffer (Blob c) \<in> heap_live w"
      using Cons.prems(2) c by auto
    ultimately show "offset (Blob c) = 0 \<and> buffer (Blob c) \<in> heap_live ?w1"
      by (auto simp: ptr.expand)
  qed
  moreover have "distinct (map Blob bs)" using Cons.prems(1) by simp
  ultimately have "delete_Blocks bs ?w1 = Inr (release (buffer ` Blob ` set bs) ?w1)"
    by (rule Cons.IH[rotated])
  moreover have "{buffer (Blob b)} \<union> buffer ` Blob ` set bs = buffer ` Blob ` set (b # bs)"
    by auto
  ultimately show ?case using d by (simp add: release_release)
qed

text \<open>
  Claim C9, as amended. With the thread-local slot empty: the scoped object's constructor
  installs a fresh arena; its destructor fails its assertion; \<open>UserAlloc\<close> is a plain
  platform allocation that writes no tag and leaves the slot empty; \<open>UserFree\<close> of any
  pointer is the platform deallocator, which releases the buffer of a pointer that is the
  start of a live buffer, the fallback allocation just made for one. With the slot
  occupied: the constructor fails its assertion; \<open>UserFree\<close> goes to the arena, whose
  \<open>Free\<close> reads the tag, so for a pointer whose tag was never written (a fallback
  allocation) the disposal is undefined, an error here; the destructor returns every block
  of the arena to the platform and clears the slot.
\<close>

theorem thread_arena_lifecycle:
  "(g_ThreadUserAllocatorTls w = None \<longrightarrow>
      UserThreadAlloc_ctor w = Inr (w\<lparr>g_ThreadUserAllocatorTls := Some new_UserBlockAllocator\<rparr>)
    \<and> UserThreadAlloc_dtor w = Inl AssertionFailed
    \<and> UserAlloc S w = Inr (platform_new w)
    \<and> g_ThreadUserAllocatorTls (snd (platform_new w)) = None
    \<and> PrivateAllocatorData (snd (platform_new w)) = PrivateAllocatorData w
    \<and> offset (fst (platform_new w)) = 0
    \<and> buffer (fst (platform_new w)) \<in> heap_live (snd (platform_new w))
    \<and> UserFree p w = platform_delete p w
    \<and> (offset p = 0 \<and> buffer p \<in> heap_live w \<longrightarrow> UserFree p w = Inr (release {buffer p} w))
    \<and> UserFree (fst (platform_new w)) (snd (platform_new w))
        = Inr (release {heap_next w} (snd (platform_new w))))
   \<and> (g_ThreadUserAllocatorTls w \<noteq> None \<longrightarrow> UserThreadAlloc_ctor w = Inl AssertionFailed)
   \<and> (\<forall>a. g_ThreadUserAllocatorTls w = Some a \<longrightarrow>
          UserFree p w = bind (Free a p w) (\<lambda>(a1, w1). Inr (w1\<lparr>g_ThreadUserAllocatorTls := Some a1\<rparr>))
        \<and> (PrivateAllocatorData w p = None \<longrightarrow> UserFree p w = Inl InvalidAccess)
        \<and> (blocks_live a w \<longrightarrow>
             UserThreadAlloc_dtor w
               = Inr ((release (buffer ` Blob ` set (Blocks a)) w)\<lparr>g_ThreadUserAllocatorTls := None\<rparr>)))"
proof (intro conjI impI allI)
  fix a assume a: "g_ThreadUserAllocatorTls w = Some a" and "blocks_live a w"
  then have "distinct (map Blob (Blocks a))"
    and "\<forall>b \<in> set (Blocks a). offset (Blob b) = 0 \<and> buffer (Blob b) \<in> heap_live w"
    by (simp_all add: blocks_live_def)
  then have "delete_Blocks (Blocks a) w = Inr (release (buffer ` Blob ` set (Blocks a)) w)"
    by (intro delete_Blocks_live)
  with a show "UserThreadAlloc_dtor w
          = Inr ((release (buffer ` Blob ` set (Blocks a)) w)\<lparr>g_ThreadUserAllocatorTls := None\<rparr>)"
    by (simp add: UserThreadAlloc_dtor_def)
qed (auto simp: UserThreadAlloc_ctor_def UserThreadAlloc_dtor_def UserAlloc_def UserFree_def
      platform_new_def platform_delete_def Free_def GetPrivateData_def)

lemma release_world0 [simp]: "release B (world0\<lparr>heap_next := n, heap_live := A\<rparr>)
   = world0\<lparr>heap_next := n, heap_live := A - B\<rparr>"
  by (rule world.equality) (simp_all add: release_def world0_def fun_eq_iff)

text \<open>
  The theorem at the initial world (slot empty, 16 bytes requested, freed at once), and
  at the world \<open>arena_world\<close> that the constructor and one allocation of 8 bytes leave: an
  arena of one block. There the constructor is refused, a pointer that carries no tag is
  not disposed, and the destructor releases the block and clears the slot.
\<close>

theorem thread_arena_lifecycle_witness:
  "g_ThreadUserAllocatorTls world0 = None
   \<and> UserThreadAlloc_ctor world0 = Inr (world0\<lparr>g_ThreadUserAllocatorTls := Some new_UserBlockAllocator\<rparr>)
   \<and> UserThreadAlloc_dtor world0 = Inl AssertionFailed
   \<and> UserAlloc 16 world0 = Inr (Ptr 0 0, world0\<lparr>heap_next := 1, heap_live := {0}\<rparr>)
   \<and> UserFree (Ptr 0 0) (world0\<lparr>heap_next := 1, heap_live := {0}\<rparr>)
       = Inr (world0\<lparr>heap_next := 1, heap_live := {}\<rparr>)
   \<and> bind (UserThreadAlloc_ctor world0) (UserAlloc 8) = Inr (Ptr 0 0, arena_world)
   \<and> blocks_live \<lparr>Blocks = [\<lparr>Blob = Ptr 0 0, Offset = 8\<rparr>], Buckets = []\<rparr> arena_world
   \<and> UserThreadAlloc_ctor arena_world = Inl AssertionFailed
   \<and> UserFree (Ptr 7 0) arena_world = Inl InvalidAccess
   \<and> UserThreadAlloc_dtor arena_world
       = Inr (arena_world\<lparr>heap_live := {}, g_ThreadUserAllocatorTls := None\<rparr>)"
proof -
  let ?a = "\<lparr>Blocks = [\<lparr>Blob = Ptr 0 0, Offset = 8\<rparr>], Buckets = []\<rparr>"
  have e: "g_ThreadUserAllocatorTls world0 = None" by (simp add: world0_def)
  have o: "g_ThreadUserAllocatorTls arena_world = Some ?a" by (simp add: arena_world_def)
  have b: "blocks_live ?a arena_world"
    by (simp add: blocks_live_def arena_world_def)
  have t: "PrivateAllocatorData arena_world (Ptr 7 0) = None"
    by (simp add: arena_world_def world0_def)
  have pn: "platform_new world0 = (Ptr 0 0, world0\<lparr>heap_next := 1, heap_live := {0}\<rparr>)"
    by (simp add: platform_new_def world0_def)
  have rl: "(release (buffer ` Blob ` set (Blocks ?a)) arena_world)\<lparr>g_ThreadUserAllocatorTls := None\<rparr>
              = arena_world\<lparr>heap_live := {}, g_ThreadUserAllocatorTls := None\<rparr>"
    by (rule world.equality) (simp_all add: arena_world_def world0_def fun_eq_iff)
  from thread_arena_lifecycle [of world0 16 "Ptr 0 0"] e pn
  have r1: "UserThreadAlloc_ctor world0 = Inr (world0\<lparr>g_ThreadUserAllocatorTls := Some new_UserBlockAllocator\<rparr>)"
    "UserThreadAlloc_dtor world0 = Inl AssertionFailed"
    "UserAlloc 16 world0 = Inr (Ptr 0 0, world0\<lparr>heap_next := 1, heap_live := {0}\<rparr>)"
    by simp_all
  have l: "g_ThreadUserAllocatorTls (world0\<lparr>heap_next := 1, heap_live := {0}\<rparr>) = None"
    "offset (Ptr 0 0) = 0 \<and> buffer (Ptr 0 0) \<in> heap_live (world0\<lparr>heap_next := 1, heap_live := {0}\<rparr>)"
    by (simp_all add: world0_def)
  from thread_arena_lifecycle [of "world0\<lparr>heap_next := 1, heap_live := {0}\<rparr>" 16 "Ptr 0 0"] l
  have "UserFree (Ptr 0 0) (world0\<lparr>heap_next := 1, heap_live := {0}\<rparr>)
       = Inr (release {buffer (Ptr 0 0)} (world0\<lparr>heap_next := 1, heap_live := {0}\<rparr>))"
    by blast
  then have r2: "UserFree (Ptr 0 0) (world0\<lparr>heap_next := 1, heap_live := {0}\<rparr>)
       = Inr (world0\<lparr>heap_next := 1, heap_live := {}\<rparr>)"
    by simp
  have f8: "GetFreeBucketIndex 8 = Inr 3" using GetFreeBucketIndex_small[of 8] by (simp add: msb_index_8)
  have i8: "GetReuseBucketIndex 8 = Inr 3" using GetReuseBucketIndex_range[of 3 8] by simp
  have run: "bind (UserThreadAlloc_ctor world0) (UserAlloc 8) = Inr (Ptr 0 0, arena_world)"
    unfolding r1(1)
    by (simp add: UserAlloc_def Allocate_def LargeAllocationThreshold_def carve_def
        GetFirstBlockFor_def new_UserBlockAllocator_def platform_new_def world0_def Let_def
        ptr_add_def i8 f8 AllocationBits_def TryPopFree_def SetPrivateData_def arena_world_def)
  note T = thread_arena_lifecycle [of arena_world 16 "Ptr 7 0"]
  from T o have r3a: "UserThreadAlloc_ctor arena_world = Inl AssertionFailed" by simp
  from T o t have r3b: "UserFree (Ptr 7 0) arena_world = Inl InvalidAccess" by blast
  from T o b have "UserThreadAlloc_dtor arena_world
       = Inr ((release (buffer ` Blob ` set (Blocks ?a)) arena_world)\<lparr>g_ThreadUserAllocatorTls := None\<rparr>)"
    by blast
  then have r3c: "UserThreadAlloc_dtor arena_world
       = Inr (arena_world\<lparr>heap_live := {}, g_ThreadUserAllocatorTls := None\<rparr>)"
    unfolding rl .
  note r3 = r3a r3b r3c
  from e r1 r2 run b r3 show ?thesis by simp
qed

text \<open>
  Claim C9 as the spec words it fails: a fallback allocation made while the slot is empty
  is not disposed by the platform deallocator once an arena has been installed.
  \<open>UserFree\<close> picks its path from the slot at the time of the free and the fallback path
  wrote no tag, so the arena's \<open>Free\<close> reads a tag that is not there, although the pointer
  is the start of a live buffer that the platform deallocator accepts.
\<close>

theorem fallback_free_after_install_counterexample:
  "g_ThreadUserAllocatorTls world0 = None
   \<and> UserAlloc 16 world0 = Inr (Ptr 0 0, world0\<lparr>heap_next := 1, heap_live := {0}\<rparr>)
   \<and> free_after_install 16 world0 = Inl InvalidAccess
   \<and> platform_delete (Ptr 0 0)
        (world0\<lparr>heap_next := 1, heap_live := {0},
                g_ThreadUserAllocatorTls := Some new_UserBlockAllocator\<rparr>)
       = Inr (world0\<lparr>heap_next := 1, heap_live := {},
                     g_ThreadUserAllocatorTls := Some new_UserBlockAllocator\<rparr>)"
proof -
  have "platform_delete (Ptr 0 0)
        (world0\<lparr>heap_next := 1, heap_live := {0},
                g_ThreadUserAllocatorTls := Some new_UserBlockAllocator\<rparr>)
       = Inr (world0\<lparr>heap_next := 1, heap_live := {},
                     g_ThreadUserAllocatorTls := Some new_UserBlockAllocator\<rparr>)"
    unfolding platform_delete_def
    by (simp add: world0_def) (rule world.equality; simp add: release_def fun_eq_iff)
  then show ?thesis
    by (simp add: free_after_install_def UserAlloc_def platform_new_def world0_def
        UserThreadAlloc_ctor_def UserFree_def Free_def GetPrivateData_def)
qed

lemma dll_frame:
  "(\<And>u. u \<in> set us \<Longrightarrow> use_at w' u = use_at w u) \<Longrightarrow> dll w' v s p us = dll w v s p us"
  by (induction us arbitrary: s p) (auto split: option.splits)

lemma dll_member:
  "dll w v s p us \<Longrightarrow> u \<in> set us \<Longrightarrow> \<exists>r. use_at w u = Some r \<and> Val r = Some v"
  by (induction us arbitrary: s p) (auto split: option.splits)

lemma dll_unique: "dll w v s p us \<Longrightarrow> dll w v s p us' \<Longrightarrow> us = us'"
proof (induction us arbitrary: s p us')
  case Nil
  then show ?case by (cases us') auto
next
  case (Cons u us)
  then show ?case by (cases us') (auto split: option.splits)
qed

lemma dll_at:
  "dll w v s p (xs @ u # ys) \<Longrightarrow>
   \<exists>r. use_at w u = Some r \<and> Val r = Some v
      \<and> Prev r = Some (if xs = [] then s else NextOf (last xs))
      \<and> Next r = (case ys of [] \<Rightarrow> None | y # _ \<Rightarrow> Some y)
      \<and> dll w v (NextOf u) (Next r) ys"
proof (induction xs arbitrary: s p)
  case Nil
  then show ?case by (cases ys) (auto split: option.splits)
next
  case (Cons x xs)
  then show ?case by (auto split: option.splits)
qed

text \<open>Unlinking inside a list.\<close>

lemma dll_unlink:
  assumes "dll w v s p (xs @ u # ys)" "distinct (xs @ u # ys)" "use_at w u = Some r"
    and "\<And>z rz. z \<in> set (xs @ ys) \<Longrightarrow> use_at w z = Some rz \<Longrightarrow>
           use_at w' z = Some (rz\<lparr>Next := (if xs \<noteq> [] \<and> z = last xs then Next r else Next rz),
                                  Prev := (if ys \<noteq> [] \<and> z = hd ys then Prev r else Prev rz)\<rparr>)"
  shows "dll w' v s (if xs = [] then Next r else p) (xs @ ys)"
  using assms
proof (induction xs arbitrary: s p)
  case Nil
  show ?case
  proof (cases ys)
    case Nil
    with Nil.prems show ?thesis by auto
  next
    case (Cons y ys')
    from Nil.prems(1,3) Cons obtain ry where
      r: "Prev r = Some s" "Next r = Some y" and
      y: "use_at w y = Some ry" "Val ry = Some v" "dll w v (NextOf y) (Next ry) ys'"
      by (auto split: option.splits)
    have y': "use_at w' y = Some (ry\<lparr>Prev := Prev r\<rparr>)"
      using Nil.prems(4)[of y ry] y(1) Cons by simp
    have "dll w' v (NextOf y) (Next ry) ys' = dll w v (NextOf y) (Next ry) ys'"
    proof (rule dll_frame)
      fix z assume z: "z \<in> set ys'"
      then obtain rz where rz: "use_at w z = Some rz" using dll_member[OF y(3)] by blast
      have "z \<noteq> y" using z Nil.prems(2) Cons by auto
      then show "use_at w' z = use_at w z"
        using Nil.prems(4)[of z rz] rz z Cons by simp
    qed
    with y y' r Cons show ?thesis by simp
  qed
next
  case (Cons x xs)
  from Cons.prems(1) obtain rx where
    x: "p = Some x" "use_at w x = Some rx" "Val rx = Some v" "Prev rx = Some s"
       "dll w v (NextOf x) (Next rx) (xs @ u # ys)"
    by (auto split: option.splits)
  have d: "distinct (xs @ u # ys)" "x \<notin> set (xs @ u # ys)" using Cons.prems(2) by auto
  have IH: "dll w' v (NextOf x) (if xs = [] then Next r else Next rx) (xs @ ys)"
  proof (rule Cons.IH[OF x(5) d(1) Cons.prems(3)])
    fix z rz assume z: "z \<in> set (xs @ ys)" "use_at w z = Some rz"
    have "z \<noteq> x" using z(1) d(2) by auto
    then have "(x # xs \<noteq> [] \<and> z = last (x # xs)) = (xs \<noteq> [] \<and> z = last xs)" by auto
    then show "use_at w' z = Some (rz\<lparr>Next := (if xs \<noteq> [] \<and> z = last xs then Next r else Next rz),
                                  Prev := (if ys \<noteq> [] \<and> z = hd ys then Prev r else Prev rz)\<rparr>)"
      using Cons.prems(4)[of z rz] z by simp
  qed
  have xl: "(x = last (x # xs)) = (xs = [])" using d(2) by (cases xs rule: rev_cases) auto
  have xh: "\<not> (ys \<noteq> [] \<and> x = hd ys)" using d(2) by (cases ys) auto
  have "use_at w' x = Some (rx\<lparr>Next := (if xs = [] then Next r else Next rx)\<rparr>)"
    using Cons.prems(4)[of x rx] x(2) xl xh by simp
  with IH x show ?case by simp
qed

lemma relinkedI:
  assumes "w' = w\<lparr>use_at := U, UseList := H\<rparr>"
    and "\<And>x. x \<notin> X \<Longrightarrow> rel_option (\<lambda>a b. Val b = Val a \<and> Parent b = Parent a) (use_at w x) (use_at w' x)"
  shows "relinked X w w'"
  unfolding relinked_def using assms by blast

lemma relinked_refl: "relinked X w w"
proof (rule relinkedI)
  show "w = w\<lparr>use_at := use_at w, UseList := UseList w\<rparr>" by simp
  show "rel_option (\<lambda>a b. Val b = Val a \<and> Parent b = Parent a) (use_at w x) (use_at w x)" for x
    by (cases "use_at w x") simp_all
qed

lemma relinked_trans: "relinked X w w1 \<Longrightarrow> relinked Y w1 w2 \<Longrightarrow> relinked (X \<union> Y) w w2"
proof -
  assume a: "relinked X w w1" "relinked Y w1 w2"
  then obtain U H U' H' where e: "w1 = w\<lparr>use_at := U, UseList := H\<rparr>" "w2 = w1\<lparr>use_at := U', UseList := H'\<rparr>"
    unfolding relinked_def by blast
  show ?thesis
  proof (rule relinkedI)
    show "w2 = w\<lparr>use_at := U', UseList := H'\<rparr>" using e by simp
    fix x assume "x \<notin> X \<union> Y"
    with a have "rel_option (\<lambda>a b. Val b = Val a \<and> Parent b = Parent a) (use_at w x) (use_at w1 x)"
      "rel_option (\<lambda>a b. Val b = Val a \<and> Parent b = Parent a) (use_at w1 x) (use_at w2 x)"
      unfolding relinked_def by blast+
    then show "rel_option (\<lambda>a b. Val b = Val a \<and> Parent b = Parent a) (use_at w x) (use_at w2 x)"
      by (cases "use_at w x"; cases "use_at w1 x"; cases "use_at w2 x") simp_all
  qed
qed

lemma relinked_mono: "relinked X w w' \<Longrightarrow> X \<subseteq> Y \<Longrightarrow> relinked Y w w'"
  unfolding relinked_def by blast

lemma relinked_rel:
  assumes "relinked X w w'" "x \<notin> X"
  shows "rel_option (\<lambda>a b. Val b = Val a \<and> Parent b = Parent a) (use_at w x) (use_at w' x)"
proof -
  from assms(1) have "\<forall>x. x \<notin> X \<longrightarrow>
        rel_option (\<lambda>a b. Val b = Val a \<and> Parent b = Parent a) (use_at w x) (use_at w' x)"
    unfolding relinked_def by (rule conjunct2)
  then show ?thesis using assms(2) by simp
qed

lemma relinked_use:
  "relinked X w w' \<Longrightarrow> x \<notin> X \<Longrightarrow> use_at w x = Some r \<Longrightarrow>
   \<exists>r'. use_at w' x = Some r' \<and> Val r' = Val r \<and> Parent r' = Parent r"
  using relinked_rel[of X w w' x] by (cases "use_at w' x") simp_all

lemma relinked_use_back:
  "relinked X w w' \<Longrightarrow> x \<notin> X \<Longrightarrow> use_at w' x = Some r' \<Longrightarrow>
   \<exists>r. use_at w x = Some r \<and> Val r' = Val r \<and> Parent r' = Parent r"
  using relinked_rel[of X w w' x] by (cases "use_at w x") simp_all

lemma relinked_None:
  "relinked X w w' \<Longrightarrow> x \<notin> X \<Longrightarrow> use_at w' x = None \<longleftrightarrow> use_at w x = None"
  using relinked_rel[of X w w' x] by (cases "use_at w x"; cases "use_at w' x") simp_all

lemma removeFromList_closed:
  assumes "use_list w v (xs @ u # ys)" "distinct (xs @ u # ys)"
  shows "\<exists>r. use_at w u = Some r \<and> removeFromList u w = Inr (w\<lparr>
     use_at := (\<lambda>z. case use_at w z of None \<Rightarrow> None | Some rz \<Rightarrow>
        Some (rz\<lparr>Next := (if xs \<noteq> [] \<and> z = last xs then Next r else Next rz),
                 Prev := (if ys \<noteq> [] \<and> z = hd ys then Prev r else Prev rz)\<rparr>)),
     UseList := (if xs = [] then (UseList w)(v := Next r) else UseList w)\<rparr>)"
proof -
  have d: "dll w v (UseListOf v) (UseList w v) (xs @ u # ys)" using assms(1) by (simp add: use_list_def)
  from dll_at[OF d] obtain r where r: "use_at w u = Some r" "Val r = Some v"
    "Prev r = Some (if xs = [] then UseListOf v else NextOf (last xs))"
    "Next r = (case ys of [] \<Rightarrow> None | y # _ \<Rightarrow> Some y)" by blast
  have live: "\<And>z. z \<in> set (xs @ u # ys) \<Longrightarrow> \<exists>rz. use_at w z = Some rz"
    using dll_member[OF d] by blast
  let ?U = "(\<lambda>z. case use_at w z of None \<Rightarrow> None | Some rz \<Rightarrow>
        Some (rz\<lparr>Next := (if xs \<noteq> [] \<and> z = last xs then Next r else Next rz),
                 Prev := (if ys \<noteq> [] \<and> z = hd ys then Prev r else Prev rz)\<rparr>))"
  let ?H = "(if xs = [] then (UseList w)(v := Next r) else UseList w)"
  have "removeFromList u w = Inr (w\<lparr>use_at := ?U, UseList := ?H\<rparr>)"
  proof (cases xs rule: rev_cases)
    case Nil
    show ?thesis
    proof (cases ys)
      case Nil
      have "?U = use_at w" using \<open>xs = []\<close> Nil by (auto simp: fun_eq_iff split: option.splits)
      then show ?thesis using r \<open>xs = []\<close> Nil
        by (simp add: removeFromList_def get_use_def write_slot_def)
    next
      case (Cons y ys')
      obtain ry where ry: "use_at w y = Some ry" using live[of y] Cons by auto
      have "?U = (use_at w)(y \<mapsto> ry\<lparr>Prev := Prev r\<rparr>)"
        using \<open>xs = []\<close> Cons ry by (auto simp: fun_eq_iff split: option.splits)
      then show ?thesis using r \<open>xs = []\<close> Cons ry
        by (simp add: removeFromList_def get_use_def write_slot_def setPrev_def modify_use_def)
    qed
  next
    case (snoc xs' x)
    obtain rx where rx: "use_at w x = Some rx" using live[of x] snoc by auto
    have xu: "x \<noteq> u" using assms(2) snoc by auto
    show ?thesis
    proof (cases ys)
      case Nil
      have "?U = (use_at w)(x \<mapsto> rx\<lparr>Next := Next r\<rparr>)"
        using snoc Nil rx by (auto simp: fun_eq_iff split: option.splits)
      then show ?thesis using r snoc Nil rx xu
        by (simp add: removeFromList_def get_use_def write_slot_def setPrev_def modify_use_def)
    next
      case (Cons y ys')
      obtain ry where ry: "use_at w y = Some ry" using live[of y] Cons by auto
      have xy: "x \<noteq> y" using assms(2) snoc Cons by auto
      have "?U = (use_at w)(x \<mapsto> rx\<lparr>Next := Next r\<rparr>, y \<mapsto> ry\<lparr>Prev := Prev r\<rparr>)"
        using snoc Cons rx ry xy by (auto simp: fun_eq_iff split: option.splits)
      then show ?thesis using r snoc Cons rx ry xu xy
        by (simp add: removeFromList_def get_use_def write_slot_def setPrev_def modify_use_def)
    qed
  qed
  with r(1) show ?thesis by blast
qed

lemma rep_member:
  "rep D L w \<Longrightarrow> u \<in> set (L v) \<Longrightarrow> \<exists>r. use_at w u = Some r \<and> Val r = Some v"
  unfolding rep_def use_list_def using dll_member by blast

lemma rep_disjoint:
  "rep D L w \<Longrightarrow> v \<noteq> v' \<Longrightarrow> u \<in> set (L v) \<Longrightarrow> u \<notin> set (L v')"
proof
  assume a: "rep D L w" "v \<noteq> v'" "u \<in> set (L v)" "u \<in> set (L v')"
  from rep_member[OF a(1,3)] rep_member[OF a(1,4)] a(2) show False by auto
qed

lemma removeFromList_rep:
  assumes "rep D L w" "use_at w u = Some r" "Val r = Some v" "u \<notin> D"
  shows "\<exists>w'. removeFromList u w = Inr w' \<and> rep (insert u D) (L(v := remove1 u (L v))) w'
           \<and> relinked {} w w'"
proof -
  have uL: "u \<in> set (L v)" using assms unfolding rep_def by blast
  then obtain xs ys where L: "L v = xs @ u # ys" by (meson split_list)
  have dist: "distinct (xs @ u # ys)" and ul: "use_list w v (xs @ u # ys)"
    using assms(1) L unfolding rep_def by metis+
  define U where "U = (\<lambda>z. case use_at w z of None \<Rightarrow> None | Some rz \<Rightarrow>
        Some (rz\<lparr>Next := (if xs \<noteq> [] \<and> z = last xs then Next r else Next rz),
                 Prev := (if ys \<noteq> [] \<and> z = hd ys then Prev r else Prev rz)\<rparr>))"
  define H where "H = (if xs = [] then (UseList w)(v := Next r) else UseList w)"
  define w' where "w' = w\<lparr>use_at := U, UseList := H\<rparr>"
  have rm: "removeFromList u w = Inr w'"
    using removeFromList_closed[OF ul dist] assms(2) by (simp add: U_def H_def w'_def)
  have U: "use_at w' = U" and H: "UseList w' = H" by (simp_all add: w'_def)
  have rem: "remove1 u (L v) = xs @ ys" using L dist by (simp add: remove1_append)
  have unchanged: "use_at w' z = use_at w z" if "z \<notin> set (xs @ ys)" for z
  proof (cases "use_at w z")
    case None then show ?thesis by (simp add: U U_def)
  next
    case (Some rz)
    have "\<not> (xs \<noteq> [] \<and> z = last xs)" "\<not> (ys \<noteq> [] \<and> z = hd ys)" using that by auto
    then have "U z = Some (rz\<lparr>Next := Next rz, Prev := Prev rz\<rparr>)"
      unfolding U_def Some by (simp only: if_False option.case)
    then show ?thesis using Some by (simp add: U)
  qed
  have lv: "use_list w' v (xs @ ys)"
  proof -
    have "dll w' v (UseListOf v) (if xs = [] then Next r else UseList w v) (xs @ ys)"
    proof (rule dll_unlink[OF _ dist assms(2)])
      show "dll w v (UseListOf v) (UseList w v) (xs @ u # ys)" using ul by (simp add: use_list_def)
    next
      fix z rz assume "z \<in> set (xs @ ys)" "use_at w z = Some rz"
      then show "use_at w' z = Some (rz\<lparr>Next := (if xs \<noteq> [] \<and> z = last xs then Next r else Next rz),
                 Prev := (if ys \<noteq> [] \<and> z = hd ys then Prev r else Prev rz)\<rparr>)"
        by (simp add: U U_def)
    qed
    moreover have "UseList w' v = (if xs = [] then Next r else UseList w v)" by (simp add: H H_def)
    ultimately show ?thesis by (simp add: use_list_def)
  qed
  have lo: "use_list w' v' (L v')" if "v' \<noteq> v" for v'
  proof -
    have "dll w' v' (UseListOf v') (UseList w v') (L v') = dll w v' (UseListOf v') (UseList w v') (L v')"
    proof (rule dll_frame)
      fix z assume "z \<in> set (L v')"
      then have "z \<notin> set (L v)" using rep_disjoint[OF assms(1) that] by blast
      then show "use_at w' z = use_at w z" using unchanged L by auto
    qed
    moreover have "UseList w' v' = UseList w v'" using that by (simp add: H H_def)
    moreover have "use_list w v' (L v')" using assms(1) unfolding rep_def by blast
    ultimately show ?thesis by (simp add: use_list_def)
  qed
  have vals: "rel_option (\<lambda>a b. Val b = Val a \<and> Parent b = Parent a) (use_at w x) (use_at w' x)" for x
    by (cases "use_at w x") (simp_all add: U U_def)
  have "rep (insert u D) (L(v := remove1 u (L v))) w'"
    unfolding rep_def
  proof (intro conjI allI impI)
    fix v'
    show "use_list w' v' ((L(v := remove1 u (L v))) v')"
      using lv lo rem by (cases "v' = v") simp_all
    show "distinct ((L(v := remove1 u (L v))) v')"
      using assms(1) unfolding rep_def by (cases "v' = v") simp_all
    have "set (L v') \<inter> D = {}" using assms(1) unfolding rep_def by blast
    moreover have "u \<notin> set ((L(v := remove1 u (L v))) v')"
    proof (cases "v' = v")
      case True
      then show ?thesis using rem dist by auto
    next
      case False
      then show ?thesis using rep_disjoint[OF assms(1) _ uL, of v'] by auto
    qed
    moreover have "set ((L(v := remove1 u (L v))) v') \<subseteq> set (L v')"
      by (cases "v' = v") (simp_all add: set_remove1_subset)
    ultimately show "set ((L(v := remove1 u (L v))) v') \<inter> insert u D = {}" by auto
  next
    fix z rz' v'
    assume z: "use_at w' z = Some rz'" "Val rz' = Some v'" "z \<notin> insert u D"
    from vals[of z] z(1,2) obtain rz where "use_at w z = Some rz" "Val rz = Some v'"
      by (cases "use_at w z") auto
    then have "z \<in> set (L v')" using assms(1) z(3) unfolding rep_def by blast
    then show "z \<in> set ((L(v := remove1 u (L v))) v')"
      using z(3) by (cases "v' = v") auto
  qed
  moreover have "relinked {} w w'" using w'_def vals by (rule relinkedI)
  ultimately show ?thesis using rm by blast
qed

lemma addUse_closed:
  assumes "use_list w v us" "use_at w u = Some r" "u \<notin> set us"
  shows "addUse v u w = Inr (w\<lparr>
     use_at := (\<lambda>z. if z = u then Some (r\<lparr>Next := UseList w v, Prev := Some (UseListOf v)\<rparr>)
                    else if Some z = UseList w v
                         then map_option (\<lambda>rz. rz\<lparr>Prev := Some (NextOf u)\<rparr>) (use_at w z)
                         else use_at w z),
     UseList := (UseList w)(v := Some u)\<rparr>)"
proof -
  let ?U = "(\<lambda>z. if z = u then Some (r\<lparr>Next := UseList w v, Prev := Some (UseListOf v)\<rparr>)
                    else if Some z = UseList w v
                         then map_option (\<lambda>rz. rz\<lparr>Prev := Some (NextOf u)\<rparr>) (use_at w z)
                         else use_at w z)"
  show ?thesis
  proof (cases us)
    case Nil
    then have n: "UseList w v = None" using assms(1) by (simp add: use_list_def)
    have eq: "?U = (use_at w)(u \<mapsto> r\<lparr>Next := None, Prev := Some (UseListOf v)\<rparr>)"
      using n by (auto simp: fun_eq_iff)
    show ?thesis unfolding eq using assms(2) n
      by (simp add: addUse_def addToList_def read_slot_def modify_use_def setPrev_def write_slot_def)
  next
    case (Cons m us')
    then obtain rm where m: "UseList w v = Some m" "use_at w m = Some rm"
      using assms(1) by (auto simp: use_list_def split: option.splits)
    have mu: "m \<noteq> u" using assms(3) Cons by auto
    have eq: "?U = (use_at w)(m \<mapsto> rm\<lparr>Prev := Some (NextOf u)\<rparr>,
                     u \<mapsto> r\<lparr>Next := Some m, Prev := Some (UseListOf v)\<rparr>)"
      using m mu by (auto simp: fun_eq_iff)
    show ?thesis unfolding eq using assms(2) m mu
      by (simp add: addUse_def addToList_def read_slot_def modify_use_def setPrev_def write_slot_def)
  qed
qed

lemma addUse_rep:
  assumes "rep D L w" "use_at w u = Some r" "Val r = Some v" "u \<in> D"
  shows "\<exists>w'. addUse v u w = Inr w' \<and> rep (D - {u}) (L(v := u # L v)) w' \<and> relinked {} w w'"
proof -
  have ul: "use_list w v (L v)" and dist: "distinct (L v)" and uL: "\<And>v'. u \<notin> set (L v')"
    using assms(1,4) unfolding rep_def by blast+
  define U where "U = (\<lambda>z. if z = u then Some (r\<lparr>Next := UseList w v, Prev := Some (UseListOf v)\<rparr>)
                    else if Some z = UseList w v
                         then map_option (\<lambda>rz. rz\<lparr>Prev := Some (NextOf u)\<rparr>) (use_at w z)
                         else use_at w z)"
  define w' where "w' = w\<lparr>use_at := U, UseList := (UseList w)(v := Some u)\<rparr>"
  have add: "addUse v u w = Inr w'"
    using addUse_closed[OF ul assms(2) uL] by (simp add: U_def w'_def)
  have U: "use_at w' = U" and H: "UseList w' = (UseList w)(v := Some u)" by (simp_all add: w'_def)
  have unchanged: "use_at w' z = use_at w z" if "z \<noteq> u" "Some z \<noteq> UseList w v" for z
    using that by (simp add: U U_def)
  have d: "dll w v (UseListOf v) (UseList w v) (L v)" using ul by (simp add: use_list_def)
  have tail: "dll w' v (NextOf u) (UseList w v) (L v)"
  proof (cases "L v")
    case Nil
    with d show ?thesis by simp
  next
    case (Cons m us')
    with d obtain rm where m: "UseList w v = Some m" "use_at w m = Some rm" "Val rm = Some v"
      "dll w v (NextOf m) (Next rm) us'"
      by (auto split: option.splits)
    have mu: "m \<noteq> u" using uL[of v] Cons by auto
    have m': "use_at w' m = Some (rm\<lparr>Prev := Some (NextOf u)\<rparr>)" using m mu by (simp add: U U_def)
    have "dll w' v (NextOf m) (Next rm) us' = dll w v (NextOf m) (Next rm) us'"
    proof (rule dll_frame)
      fix z assume z: "z \<in> set us'"
      then have "z \<noteq> m" "z \<noteq> u" using dist Cons uL[of v] by auto
      then show "use_at w' z = use_at w z" using unchanged m(1) by simp
    qed
    with m m' Cons show ?thesis by simp
  qed
  have lv: "use_list w' v (u # L v)"
    using tail assms(3) by (simp add: use_list_def H U U_def)
  have lo: "use_list w' v' (L v')" if "v' \<noteq> v" for v'
  proof -
    have "dll w' v' (UseListOf v') (UseList w v') (L v') = dll w v' (UseListOf v') (UseList w v') (L v')"
    proof (rule dll_frame)
      fix z assume z: "z \<in> set (L v')"
      have "z \<noteq> u" using z uL by auto
      moreover have "Some z \<noteq> UseList w v"
      proof
        assume "Some z = UseList w v"
        with d have "z \<in> set (L v)" by (cases "L v") auto
        with rep_disjoint[OF assms(1) that z] show False by simp
      qed
      ultimately show "use_at w' z = use_at w z" by (rule unchanged)
    qed
    moreover have "UseList w' v' = UseList w v'" using that by (simp add: H)
    moreover have "use_list w v' (L v')" using assms(1) unfolding rep_def by blast
    ultimately show ?thesis by (simp add: use_list_def)
  qed
  have vals: "rel_option (\<lambda>a b. Val b = Val a \<and> Parent b = Parent a) (use_at w x) (use_at w' x)" for x
    using assms(2) by (cases "use_at w x") (auto simp: U U_def)
  have "rep (D - {u}) (L(v := u # L v)) w'"
    unfolding rep_def
  proof (intro conjI allI impI)
    fix v'
    show "use_list w' v' ((L(v := u # L v)) v')"
      using lv lo by (cases "v' = v") simp_all
    show "distinct ((L(v := u # L v)) v')"
      using assms(1) uL unfolding rep_def by (cases "v' = v") simp_all
    have "set (L v') \<inter> D = {}" using assms(1) unfolding rep_def by blast
    then show "set ((L(v := u # L v)) v') \<inter> (D - {u}) = {}"
      by (cases "v' = v") auto
  next
    fix z rz' v'
    assume z: "use_at w' z = Some rz'" "Val rz' = Some v'" "z \<notin> D - {u}"
    from vals[of z] z(1,2) obtain rz where rz: "use_at w z = Some rz" "Val rz = Some v'"
      by (cases "use_at w z") auto
    show "z \<in> set ((L(v := u # L v)) v')"
    proof (cases "z = u")
      case True
      with rz assms(2,3) show ?thesis by simp
    next
      case False
      with z(3) have "z \<notin> D" by simp
      with rz assms(1) have "z \<in> set (L v')" unfolding rep_def by blast
      then show ?thesis by (cases "v' = v") auto
    qed
  qed
  moreover have "relinked {} w w'" using w'_def vals by (rule relinkedI)
  ultimately show ?thesis using add by blast
qed

lemma rep_not_linked:
  assumes "rep D L w" "use_at w u = Some r" "Val r = None"
  shows "u \<notin> set (L v)"
proof
  assume "u \<in> set (L v)"
  from rep_member[OF assms(1) this] assms(2,3) show False by simp
qed

lemma rep_insert_unlinked:
  assumes "rep D L w" "use_at w u = Some r" "Val r = None"
  shows "rep (insert u D) L w"
  using assms(1) rep_not_linked[OF assms] unfolding rep_def by auto

lemma detach_rep:
  assumes "rep D L w" "use_at w u = Some r" "u \<notin> D"
  shows "\<exists>w'. (if Val r \<noteq> None then removeFromList u w else Inr w) = Inr w'
           \<and> rep (insert u D) (unlink_from (Val r) u L) w' \<and> relinked {} w w'"
proof (cases "Val r")
  case None
  then show ?thesis
    using rep_insert_unlinked[OF assms(1,2)] relinked_refl by (simp add: unlink_from_def)
next
  case (Some v)
  then show ?thesis
    using removeFromList_rep[OF assms(1,2) Some assms(3)] by (simp add: unlink_from_def)
qed

lemma set_Val_rep:
  assumes "rep D L w" "use_at w u = Some r" "u \<in> D"
  shows "modify_use u (\<lambda>r. r\<lparr>Val := V\<rparr>) w = Inr (w\<lparr>use_at := (use_at w)(u \<mapsto> r\<lparr>Val := V\<rparr>)\<rparr>)"
    and "rep D L (w\<lparr>use_at := (use_at w)(u \<mapsto> r\<lparr>Val := V\<rparr>)\<rparr>)"
    and "relinked {u} w (w\<lparr>use_at := (use_at w)(u \<mapsto> r\<lparr>Val := V\<rparr>)\<rparr>)"
proof -
  let ?w = "w\<lparr>use_at := (use_at w)(u \<mapsto> r\<lparr>Val := V\<rparr>)\<rparr>"
  show "modify_use u (\<lambda>r. r\<lparr>Val := V\<rparr>) w = Inr ?w" using assms(2) by (simp add: modify_use_def)
  have uL: "\<And>v. u \<notin> set (L v)" using assms(1,3) unfolding rep_def by blast
  show "rep D L ?w"
    unfolding rep_def
  proof (intro conjI allI impI)
    fix v
    have "dll ?w v (UseListOf v) (UseList w v) (L v) = dll w v (UseListOf v) (UseList w v) (L v)"
      by (rule dll_frame) (use uL in auto)
    then show "use_list ?w v (L v)" using assms(1) unfolding rep_def use_list_def by simp
    show "distinct (L v)" "set (L v) \<inter> D = {}" using assms(1) unfolding rep_def by blast+
  next
    fix z rz v assume z: "use_at ?w z = Some rz" "Val rz = Some v" "z \<notin> D"
    then have "z \<noteq> u" using assms(3) by auto
    with z assms(1) show "z \<in> set (L v)" unfolding rep_def by auto
  qed
  show "relinked {u} w ?w"
  proof (rule relinkedI)
    show "?w = w\<lparr>use_at := (use_at w)(u \<mapsto> r\<lparr>Val := V\<rparr>), UseList := UseList w\<rparr>" by simp
    fix x assume "x \<notin> {u}"
    then show "rel_option (\<lambda>a b. Val b = Val a \<and> Parent b = Parent a) (use_at w x) (use_at ?w x)"
      by (cases "use_at w x") simp_all
  qed
qed

lemma rep_drop_unlinked:
  assumes "rep D L w" "use_at w u = Some r" "Val r = None"
  shows "rep (D - {u}) L w"
  unfolding rep_def
proof (intro conjI allI impI)
  fix v
  show "use_list w v (L v)" "distinct (L v)" using assms(1) unfolding rep_def by blast+
  have "set (L v) \<inter> D = {}" using assms(1) unfolding rep_def by blast
  then show "set (L v) \<inter> (D - {u}) = {}" by auto
next
  fix z rz v assume z: "use_at w z = Some rz" "Val rz = Some v" "z \<notin> D - {u}"
  then have "z \<noteq> u" using assms(2,3) by auto
  with z assms(1) show "z \<in> set (L v)" unfolding rep_def by auto
qed

lemma attach_rep:
  assumes "rep D L w" "use_at w u = Some r" "u \<in> D"
  shows "\<exists>w'. (case Val r of None \<Rightarrow> Inr w | Some v \<Rightarrow> addUse v u w) = Inr w'
           \<and> rep (D - {u}) (link_to (Val r) u L) w' \<and> relinked {} w w'"
proof (cases "Val r")
  case None
  then show ?thesis
    using rep_drop_unlinked[OF assms(1,2)] relinked_refl by (simp add: link_to_def)
next
  case (Some v)
  then show ?thesis
    using addUse_rep[OF assms(1,2) Some assms(3)] by (simp add: link_to_def)
qed

lemma kill_rep:
  assumes "rep D L w" "u \<in> D"
  shows "rep (D - {u}) L (w\<lparr>use_at := (use_at w)(u := None)\<rparr>)"
    and "relinked {u} w (w\<lparr>use_at := (use_at w)(u := None)\<rparr>)"
proof -
  let ?w = "w\<lparr>use_at := (use_at w)(u := None)\<rparr>"
  have uL: "\<And>v. u \<notin> set (L v)" using assms unfolding rep_def by blast
  show "rep (D - {u}) L ?w"
    unfolding rep_def
  proof (intro conjI allI impI)
    fix v
    have "dll ?w v (UseListOf v) (UseList w v) (L v) = dll w v (UseListOf v) (UseList w v) (L v)"
      by (rule dll_frame) (use uL in auto)
    then show "use_list ?w v (L v)" using assms(1) unfolding rep_def use_list_def by simp
    show "distinct (L v)" using assms(1) unfolding rep_def by blast
    have "set (L v) \<inter> D = {}" using assms(1) unfolding rep_def by blast
    then show "set (L v) \<inter> (D - {u}) = {}" by auto
  next
    fix z rz v assume z: "use_at ?w z = Some rz" "Val rz = Some v" "z \<notin> D - {u}"
    then have "z \<noteq> u" by (auto split: if_splits)
    with z assms(1) show "z \<in> set (L v)" unfolding rep_def by auto
  qed
  show "relinked {u} w ?w"
  proof (rule relinkedI)
    show "?w = w\<lparr>use_at := (use_at w)(u := None), UseList := UseList w\<rparr>" by simp
    fix x assume "x \<notin> {u}"
    then show "rel_option (\<lambda>a b. Val b = Val a \<and> Parent b = Parent a) (use_at w x) (use_at ?w x)"
      by (cases "use_at w x") simp_all
  qed
qed

lemma Use_dtor_rep:
  assumes "rep {} L w" "use_at w u = Some r"
  shows "\<exists>w'. Use_dtor u w = Inr w' \<and> rep {} (unlink_from (Val r) u L) w'
           \<and> relinked {u} w w' \<and> use_at w' u = None"
proof -
  obtain w1 where w1: "(if Val r \<noteq> None then removeFromList u w else Inr w) = Inr w1"
    "rep {u} (unlink_from (Val r) u L) w1" "relinked {} w w1"
    using detach_rep[OF assms, of ] by auto
  let ?w = "w1\<lparr>use_at := (use_at w1)(u := None)\<rparr>"
  have "Use_dtor u w = Inr ?w" using assms(2) w1(1) by (simp add: Use_dtor_def get_use_def)
  moreover have "rep {} (unlink_from (Val r) u L) ?w" using kill_rep(1)[OF w1(2), of u] by simp
  moreover have "relinked {u} w ?w"
    using relinked_trans[OF w1(3) kill_rep(2)[OF w1(2), of u]] by simp
  ultimately show ?thesis by simp
qed

lemma Use_set_rep:
  assumes "rep {} L w" "use_at w u = Some r"
  shows "\<exists>w' r'. Use_set u V w = Inr w'
           \<and> rep {} (if Val r = V then L else link_to V u (unlink_from (Val r) u L)) w'
           \<and> relinked {u} w w' \<and> use_at w' u = Some r' \<and> Val r' = V \<and> Parent r' = Parent r"
proof (cases "Val r = V")
  case True
  then have "Use_set u V w = Inr w" using assms(2) by (simp add: Use_set_def get_use_def)
  with True assms relinked_refl show ?thesis by auto
next
  case False
  obtain w1 where w1: "(if Val r \<noteq> None then removeFromList u w else Inr w) = Inr w1"
    "rep {u} (unlink_from (Val r) u L) w1" "relinked {} w w1"
    using detach_rep[OF assms] by auto
  obtain r1 where r1: "use_at w1 u = Some r1" "Parent r1 = Parent r"
    using relinked_use[OF w1(3) _ assms(2)] by auto
  define w2 where "w2 = w1\<lparr>use_at := (use_at w1)(u \<mapsto> r1\<lparr>Val := V\<rparr>)\<rparr>"
  have s2: "modify_use u (\<lambda>r. r\<lparr>Val := V\<rparr>) w1 = Inr w2"
    "rep {u} (unlink_from (Val r) u L) w2" "relinked {u} w1 w2"
    using set_Val_rep[OF w1(2) r1(1), of V] by (simp_all add: w2_def)
  have u2: "use_at w2 u = Some (r1\<lparr>Val := V\<rparr>)" by (simp add: w2_def)
  obtain w3 where w3: "(case V of None \<Rightarrow> Inr w2 | Some v \<Rightarrow> addUse v u w2) = Inr w3"
    "rep {} (link_to V u (unlink_from (Val r) u L)) w3" "relinked {} w2 w3"
    using attach_rep[OF s2(2) u2] by auto
  obtain r3 where r3: "use_at w3 u = Some r3" "Val r3 = V" "Parent r3 = Parent r"
    using relinked_use[OF w3(3) _ u2] r1(2) by auto
  have "Use_set u V w = Inr w3"
    using assms(2) False w1(1) s2(1) w3(1) by (simp add: Use_set_def get_use_def)
  moreover have "relinked {u} w w3"
    using relinked_trans[OF relinked_trans[OF w1(3) s2(3)] w3(3)] by simp
  ultimately show ?thesis using False w3(2) r3 by auto
qed

lemma rep_set:
  assumes "rep {} L w"
  shows "set (L v) = {u. \<exists>r. use_at w u = Some r \<and> Val r = Some v}"
proof (intro set_eqI iffI)
  fix u assume "u \<in> set (L v)"
  from rep_member[OF assms this] show "u \<in> {u. \<exists>r. use_at w u = Some r \<and> Val r = Some v}" by simp
next
  fix u assume "u \<in> {u. \<exists>r. use_at w u = Some r \<and> Val r = Some v}"
  then show "u \<in> set (L v)" using assms unfolding rep_def by auto
qed

lemma relinked_same_sets:
  assumes "relinked {} w w'" "rep {} L w" "rep {} L' w'"
  shows "set (L' v) = set (L v)"
proof -
  have "(\<exists>r. use_at w' u = Some r \<and> Val r = Some v) = (\<exists>r. use_at w u = Some r \<and> Val r = Some v)" for u
    using relinked_use[OF assms(1), of u] relinked_use_back[OF assms(1), of u] by fastforce
  then show ?thesis unfolding rep_set[OF assms(2)] rep_set[OF assms(3)] by simp
qed

lemma relinked_shrink:
  assumes "relinked X w w'"
    and "\<And>x. x \<in> X \<Longrightarrow> rel_option (\<lambda>a b. Val b = Val a \<and> Parent b = Parent a) (use_at w x) (use_at w' x)"
  shows "relinked {} w w'"
proof -
  from assms(1) obtain U H where e: "w' = w\<lparr>use_at := U, UseList := H\<rparr>"
    unfolding relinked_def by blast
  show ?thesis
  proof (rule relinkedI[OF e])
    fix x
    show "rel_option (\<lambda>a b. Val b = Val a \<and> Parent b = Parent a) (use_at w x) (use_at w' x)"
      using assms(2)[of x] relinked_rel[OF assms(1), of x] by (cases "x \<in> X") simp_all
  qed
qed

lemma Use_swap_same:
  "use_at w a = Some ra \<Longrightarrow> use_at w b = Some rb \<Longrightarrow> Val ra = Val rb \<Longrightarrow> Use_swap a b w = Inr w"
  by (simp add: Use_swap_def get_use_def)

lemma Use_swap_rep:
  assumes "rep {} L w" "use_at w a = Some ra" "use_at w b = Some rb" "Val ra \<noteq> Val rb"
  shows "\<exists>w' ra' rb'. Use_swap a b w = Inr w'
           \<and> rep {} (link_to (Val ra) b (link_to (Val rb) a
                       (unlink_from (Val rb) b (unlink_from (Val ra) a L)))) w'
           \<and> relinked {a, b} w w'
           \<and> use_at w' a = Some ra' \<and> Val ra' = Val rb \<and> Parent ra' = Parent ra
           \<and> use_at w' b = Some rb' \<and> Val rb' = Val ra \<and> Parent rb' = Parent rb"
proof -
  have ab: "a \<noteq> b" using assms(2-4) by auto
  let ?L1 = "unlink_from (Val ra) a L"
  let ?L2 = "unlink_from (Val rb) b ?L1"
  let ?L3 = "link_to (Val rb) a ?L2"
  let ?L4 = "link_to (Val ra) b ?L3"
  \<comment> \<open>unlink this\<close>
  obtain w1 where w1: "(if Val ra \<noteq> None then removeFromList a w else Inr w) = Inr w1"
    "rep {a} ?L1 w1" "relinked {} w w1"
    using detach_rep[OF assms(1,2)] by auto
  obtain ra1 where ra1: "use_at w1 a = Some ra1" "Val ra1 = Val ra" "Parent ra1 = Parent ra"
    using relinked_use[OF w1(3) _ assms(2)] by auto
  obtain rb1 where rb1: "use_at w1 b = Some rb1" "Val rb1 = Val rb" "Parent rb1 = Parent rb"
    using relinked_use[OF w1(3) _ assms(3)] by auto
  \<comment> \<open>unlink RHS\<close>
  obtain w2 where w2: "(if Val rb1 \<noteq> None then removeFromList b w1 else Inr w1) = Inr w2"
    "rep {a, b} ?L2 w2" "relinked {} w1 w2"
    using detach_rep[OF w1(2) rb1(1)] ab rb1(2) by (auto simp: insert_commute)
  obtain ra2 where ra2: "use_at w2 a = Some ra2" "Parent ra2 = Parent ra"
    using relinked_use[OF w2(3) _ ra1(1)] ra1(3) by auto
  obtain rb2 where rb2: "use_at w2 b = Some rb2" "Parent rb2 = Parent rb"
    using relinked_use[OF w2(3) _ rb1(1)] rb1(3) by auto
  \<comment> \<open>this takes the Value of RHS\<close>
  define w3 where "w3 = w2\<lparr>use_at := (use_at w2)(a \<mapsto> ra2\<lparr>Val := Val rb\<rparr>)\<rparr>"
  have w3: "modify_use a (\<lambda>r. r\<lparr>Val := Val rb\<rparr>) w2 = Inr w3" "rep {a, b} ?L2 w3" "relinked {a} w2 w3"
    using set_Val_rep[OF w2(2) ra2(1), of "Val rb"] by (simp_all add: w3_def)
  have a3: "use_at w3 a = Some (ra2\<lparr>Val := Val rb\<rparr>)" by (simp add: w3_def)
  have b3: "use_at w3 b = Some rb2" using rb2(1) ab by (simp add: w3_def)
  obtain w4 where w4: "(case Val rb of None \<Rightarrow> Inr w3 | Some v \<Rightarrow> addUse v a w3) = Inr w4"
    "rep {b} ?L3 w4" "relinked {} w3 w4"
  proof -
    from attach_rep[OF w3(2) a3] obtain w4 where
      "(case Val rb of None \<Rightarrow> Inr w3 | Some v \<Rightarrow> addUse v a w3) = Inr w4"
      "rep ({a, b} - {a}) ?L3 w4" "relinked {} w3 w4" by auto
    moreover have "{a, b} - {a} = {b}" using ab by auto
    ultimately show ?thesis using that by simp
  qed
  obtain ra4 where ra4: "use_at w4 a = Some ra4" "Val ra4 = Val rb" "Parent ra4 = Parent ra"
    using relinked_use[OF w4(3) _ a3] ra2(2) by auto
  obtain rb4 where rb4: "use_at w4 b = Some rb4" "Parent rb4 = Parent rb"
    using relinked_use[OF w4(3) _ b3] rb2(2) by auto
  \<comment> \<open>RHS takes the old Value of this\<close>
  define w5 where "w5 = w4\<lparr>use_at := (use_at w4)(b \<mapsto> rb4\<lparr>Val := Val ra\<rparr>)\<rparr>"
  have w5: "modify_use b (\<lambda>r. r\<lparr>Val := Val ra\<rparr>) w4 = Inr w5" "rep {b} ?L3 w5" "relinked {b} w4 w5"
    using set_Val_rep[OF w4(2) rb4(1), of "Val ra"] by (simp_all add: w5_def)
  have a5: "use_at w5 a = Some ra4" using ra4(1) ab by (simp add: w5_def)
  have b5: "use_at w5 b = Some (rb4\<lparr>Val := Val ra\<rparr>)" by (simp add: w5_def)
  obtain w6 where w6: "(case Val ra of None \<Rightarrow> Inr w5 | Some v \<Rightarrow> addUse v b w5) = Inr w6"
    "rep {} ?L4 w6" "relinked {} w5 w6"
    using attach_rep[OF w5(2) b5] by auto
  obtain ra6 where ra6: "use_at w6 a = Some ra6" "Val ra6 = Val rb" "Parent ra6 = Parent ra"
    using relinked_use[OF w6(3) _ a5] ra4 by auto
  obtain rb6 where rb6: "use_at w6 b = Some rb6" "Val rb6 = Val ra" "Parent rb6 = Parent rb"
    using relinked_use[OF w6(3) _ b5] rb4(2) by auto
  have second: "(case Val rb1 of
                 Some v \<Rightarrow>
                   bind (removeFromList b w1) (\<lambda>w2.
                   bind (modify_use a (\<lambda>r. r\<lparr>Val := Some v\<rparr>) w2) (\<lambda>w3.
                   addUse v a w3))
               | None \<Rightarrow> modify_use a (\<lambda>r. r\<lparr>Val := None\<rparr>) w1) = Inr w4"
  proof (cases "Val rb")
    case None
    then have "w2 = w1" using w2(1) rb1(2) by simp
    then show ?thesis using None rb1(2) w3(1) w4(1) by simp
  next
    case (Some v)
    then show ?thesis using rb1(2) w2(1) w3(1) w4(1) by simp
  qed
  have third: "(case Val ra1 of
           Some v \<Rightarrow>
             bind (modify_use b (\<lambda>r. r\<lparr>Val := Some v\<rparr>) w4) (\<lambda>w5.
             addUse v b w5)
         | None \<Rightarrow> modify_use b (\<lambda>r. r\<lparr>Val := None\<rparr>) w4) = Inr w6"
    using ra1(2) w5(1) w6(1) by (cases "Val ra") simp_all
  have "Use_swap a b w = Inr w6"
    using assms(2-4) w1(1) ra1(1) rb1(1) second third
    by (simp add: Use_swap_def get_use_def Let_def)
  moreover have "relinked {a, b} w w6"
  proof -
    have "relinked ({} \<union> {} \<union> {a} \<union> {} \<union> {b} \<union> {}) w w6"
      by (intro relinked_trans[OF _ w6(3)] relinked_trans[OF _ w5(3)] relinked_trans[OF _ w4(3)]
          relinked_trans[OF _ w3(3)] relinked_trans[OF w1(3) w2(3)])
    then show ?thesis by (simp add: insert_commute)
  qed
  ultimately show ?thesis using w6(2) ra6 rb6 by blast
qed

lemma demo_rep: "rep {} demo_lists demo_world"
  unfolding rep_def
proof (intro conjI allI impI)
  fix v
  show "use_list demo_world v (demo_lists v)"
    by (simp add: use_list_def demo_world_def demo_lists_def world0_def)
  show "distinct (demo_lists v)" by (simp add: demo_lists_def)
  show "set (demo_lists v) \<inter> {} = {}" by simp
next
  fix u r v assume "use_at demo_world u = Some r" "Val r = Some v" "u \<notin> {}"
  then show "u \<in> set (demo_lists v)"
    by (auto simp: demo_world_def demo_lists_def world0_def split: if_splits)
qed

lemma link_unlink_at:
  "link_to V u L v = (if V = Some v then u # L v else L v)"
  "unlink_from V u L v = (if V = Some v then remove1 u (L v) else L v)"
  by (cases V; simp add: link_to_def unlink_from_def)+

text \<open>
  Claim C6, as amended. In a world with well-formed use-lists \<open>L\<close>, for two live Uses:
  \<open>swap\<close> is a no-op when both reference the same Value (so \<open>u.swap(u)\<close> changes
  nothing). When the Values differ, \<open>swap\<close> succeeds, each Use takes the other's former
  Value and sits at the head of that Value's use-list, the other Use being removed from
  it; all other use-lists are as before. A second \<open>a.swap(b)\<close> then succeeds and restores
  every Use's Value and the membership of every use-list; the order within the lists is
  not promised.
\<close>

theorem Use_swap_relinks:
  assumes "rep {} L w" "use_at w a = Some ra" "use_at w b = Some rb"
  shows "(Val ra = Val rb \<longrightarrow> Use_swap a b w = Inr w) \<and>
         (Val ra \<noteq> Val rb \<longrightarrow>
           (\<exists>w1 ra1 rb1. Use_swap a b w = Inr w1 \<and> use_lists_ok w1
              \<and> use_at w1 a = Some ra1 \<and> Val ra1 = Val rb
              \<and> use_at w1 b = Some rb1 \<and> Val rb1 = Val ra
              \<and> (\<forall>v. Val rb = Some v \<longrightarrow> use_list w1 v (a # remove1 b (L v)))
              \<and> (\<forall>v. Val ra = Some v \<longrightarrow> use_list w1 v (b # remove1 a (L v)))
              \<and> (\<forall>v. Val ra \<noteq> Some v \<and> Val rb \<noteq> Some v \<longrightarrow> use_list w1 v (L v))
              \<and> (\<exists>w2 L2. Use_swap a b w1 = Inr w2 \<and> rep {} L2 w2 \<and> relinked {} w w2
                    \<and> (\<forall>v. set (L2 v) = set (L v)))))"
proof (intro conjI impI)
  assume "Val ra = Val rb"
  with assms(2,3) show "Use_swap a b w = Inr w" by (rule Use_swap_same)
next
  assume ne: "Val ra \<noteq> Val rb"
  let ?L1 = "link_to (Val ra) b (link_to (Val rb) a
               (unlink_from (Val rb) b (unlink_from (Val ra) a L)))"
  obtain w1 ra1 rb1 where s1: "Use_swap a b w = Inr w1" "rep {} ?L1 w1" "relinked {a, b} w w1"
    "use_at w1 a = Some ra1" "Val ra1 = Val rb" "Parent ra1 = Parent ra"
    "use_at w1 b = Some rb1" "Val rb1 = Val ra" "Parent rb1 = Parent rb"
    using Use_swap_rep[OF assms ne] by blast
  have ne1: "Val ra1 \<noteq> Val rb1" using ne s1(5,8) by simp
  obtain w2 L2 ra2 rb2 where s2: "Use_swap a b w1 = Inr w2" "rep {} L2 w2" "relinked {a, b} w1 w2"
    "use_at w2 a = Some ra2" "Val ra2 = Val rb1" "Parent ra2 = Parent ra1"
    "use_at w2 b = Some rb2" "Val rb2 = Val ra1" "Parent rb2 = Parent rb1"
    using Use_swap_rep[OF s1(2,4,7) ne1] by blast
  have r02: "relinked {a, b} w w2" using relinked_trans[OF s1(3) s2(3)] by simp
  have "relinked {} w w2"
  proof (rule relinked_shrink[OF r02])
    fix x assume "x \<in> {a, b}"
    then show "rel_option (\<lambda>a b. Val b = Val a \<and> Parent b = Parent a) (use_at w x) (use_at w2 x)"
      using assms(2,3) s1 s2 by auto
  qed
  moreover have "\<forall>v. set (L2 v) = set (L v)"
    using relinked_same_sets[OF \<open>relinked {} w w2\<close> assms(1) s2(2)] by simp
  moreover have L1: "use_list w1 v (?L1 v)" for v using s1(2) unfolding rep_def by blast
  have "use_list w1 v (a # remove1 b (L v))" if "Val rb = Some v" for v
  proof -
    have "Val ra \<noteq> Some v" using ne that by simp
    then show ?thesis using L1[of v] that by (simp add: link_unlink_at)
  qed
  moreover have "use_list w1 v (b # remove1 a (L v))" if "Val ra = Some v" for v
  proof -
    have "Val rb \<noteq> Some v" using ne that by simp
    then show ?thesis using L1[of v] that by (simp add: link_unlink_at)
  qed
  moreover have "use_list w1 v (L v)" if "Val ra \<noteq> Some v \<and> Val rb \<noteq> Some v" for v
    using L1[of v] that by (simp add: link_unlink_at)
  moreover have "use_lists_ok w1" using s1(2) unfolding use_lists_ok_def by blast
  ultimately show "\<exists>w1 ra1 rb1. Use_swap a b w = Inr w1 \<and> use_lists_ok w1
              \<and> use_at w1 a = Some ra1 \<and> Val ra1 = Val rb
              \<and> use_at w1 b = Some rb1 \<and> Val rb1 = Val ra
              \<and> (\<forall>v. Val rb = Some v \<longrightarrow> use_list w1 v (a # remove1 b (L v)))
              \<and> (\<forall>v. Val ra = Some v \<longrightarrow> use_list w1 v (b # remove1 a (L v)))
              \<and> (\<forall>v. Val ra \<noteq> Some v \<and> Val rb \<noteq> Some v \<longrightarrow> use_list w1 v (L v))
              \<and> (\<exists>w2 L2. Use_swap a b w1 = Inr w2 \<and> rep {} L2 w2 \<and> relinked {} w w2
                    \<and> (\<forall>v. set (L2 v) = set (L v)))"
    using s1(1,4,5,7,8) s2(1,2) by blast
qed

lemma demo_use_32:
  "use_at demo_world (Ptr 0 32) = Some \<lparr>Val = Some 1, Next = None, Prev = Some (NextOf (Ptr 0 0)),
                              Parent = Some (Ptr 0 96)\<rparr>"
  by (simp add: demo_world_def)

lemma demo_use_64:
  "use_at demo_world (Ptr 0 64) = Some \<lparr>Val = Some 2, Next = None, Prev = Some (UseListOf 2),
                              Parent = Some (Ptr 0 96)\<rparr>"
  by (simp add: demo_world_def)

text \<open>The theorem in the example world, for a self-swap and for the Uses at offsets 32 and 64.\<close>

theorem Use_swap_relinks_witness:
  "rep {} demo_lists demo_world
   \<and> Use_swap (Ptr 0 32) (Ptr 0 32) demo_world = Inr demo_world
   \<and> (\<exists>w1. Use_swap (Ptr 0 32) (Ptr 0 64) demo_world = Inr w1
         \<and> use_list w1 2 [Ptr 0 32] \<and> use_list w1 1 [Ptr 0 64, Ptr 0 0]
         \<and> (\<exists>w2. Use_swap (Ptr 0 32) (Ptr 0 64) w1 = Inr w2 \<and> relinked {} demo_world w2))"
proof -
  have same: "Use_swap (Ptr 0 32) (Ptr 0 32) demo_world = Inr demo_world"
    using Use_swap_relinks[OF demo_rep demo_use_32 demo_use_32] by simp
  from Use_swap_relinks[OF demo_rep demo_use_32 demo_use_64]
  obtain w1 where w1: "Use_swap (Ptr 0 32) (Ptr 0 64) demo_world = Inr w1"
    "use_list w1 2 (Ptr 0 32 # remove1 (Ptr 0 64) (demo_lists 2))"
    "use_list w1 1 (Ptr 0 64 # remove1 (Ptr 0 32) (demo_lists 1))"
    "\<exists>w2 L2. Use_swap (Ptr 0 32) (Ptr 0 64) w1 = Inr w2 \<and> rep {} L2 w2 \<and> relinked {} demo_world w2
        \<and> (\<forall>v. set (L2 v) = set (demo_lists v))"
    by auto
  from w1(2,3) have "use_list w1 2 [Ptr 0 32]" "use_list w1 1 [Ptr 0 64, Ptr 0 0]"
    by (simp_all add: demo_lists_def)
  with same w1(1,4) demo_rep show ?thesis by blast
qed

text \<open>
  Claim C6 as the spec words it fails: in the example world the use-list of Value 1 is
  offset 0, then offset 32; swapping the Uses at offsets 32 and 64 twice succeeds and
  leaves the use-list of Value 1 as offset 32, then offset 0. The state before the first
  swap is not restored.
\<close>

theorem swap_twice_order_counterexample:
  "use_list demo_world 1 [Ptr 0 0, Ptr 0 32]
   \<and> \<not> isl (swap_twice (Ptr 0 32) (Ptr 0 64) demo_world)
   \<and> use_list (projr (swap_twice (Ptr 0 32) (Ptr 0 64) demo_world)) 1 [Ptr 0 32, Ptr 0 0]
   \<and> swap_twice (Ptr 0 32) (Ptr 0 64) demo_world \<noteq> Inr demo_world"
proof -
  let ?a = "Ptr 0 32" and ?b = "Ptr 0 64"
  let ?L1 = "link_to (Some 1) ?b (link_to (Some 2) ?a
               (unlink_from (Some 2) ?b (unlink_from (Some 1) ?a demo_lists)))"
  let ?L2 = "link_to (Some 2) ?b (link_to (Some 1) ?a
               (unlink_from (Some 1) ?b (unlink_from (Some 2) ?a ?L1)))"
  have before: "use_list demo_world 1 [Ptr 0 0, Ptr 0 32]"
    using demo_rep unfolding rep_def by (auto simp: demo_lists_def dest!: spec[of _ 1])
  obtain w1 ra1 rb1 where s1: "Use_swap ?a ?b demo_world = Inr w1" "rep {} ?L1 w1"
    "use_at w1 ?a = Some ra1" "Val ra1 = Some 2" "use_at w1 ?b = Some rb1" "Val rb1 = Some 1"
    using Use_swap_rep[OF demo_rep demo_use_32 demo_use_64] by auto
  have ne: "Val ra1 \<noteq> Val rb1" using s1(4,6) by simp
  obtain w2 where s2: "Use_swap ?a ?b w1 = Inr w2" "rep {} ?L2 w2"
    using Use_swap_rep[OF s1(2,3,5) ne] unfolding s1(4,6) by auto
  have tw: "swap_twice ?a ?b demo_world = Inr w2" using s1(1) s2(1) by (simp add: swap_twice_def)
  have "use_list w2 1 (?L2 1)" using s2(2) unfolding rep_def by blast
  then have after: "use_list w2 1 [Ptr 0 32, Ptr 0 0]"
    by (simp add: link_unlink_at demo_lists_def)
  have "w2 \<noteq> demo_world"
  proof
    assume "w2 = demo_world"
    with after before have "[Ptr 0 32, Ptr 0 0] = [Ptr 0 0, Ptr 0 32]"
      unfolding use_list_def by (metis dll_unique)
    then show False by simp
  qed
  with before after tw show ?thesis by simp
qed

lemma ptr_add_add [simp]: "ptr_add (ptr_add p a) b = ptr_add p (a + b)"
  by (simp add: ptr_add_def add.assoc)

lemma ptr_add_0 [simp]: "ptr_add p 0 = p"
  by (simp add: ptr_add_def)

lemma ptr_add_inject [simp]: "ptr_add p a = ptr_add p b \<longleftrightarrow> a = b"
  by (simp add: ptr_add_def)

lemma ptr_add_eq_self [simp]: "ptr_add p a = p \<longleftrightarrow> a = 0"
  by (cases p) (simp add: ptr_add_def)

lemma use_array_Suc:
  "use_array Begin (Suc n) = insert Begin (use_array (ptr_add Begin sizeof_Use) n)"
proof -
  have "{..<Suc n} = insert 0 (Suc ` {..<n})" by (auto simp: lessThan_Suc_eq_insert_0)
  then show ?thesis by (simp add: use_array_def image_image)
qed

lemma use_array_0 [simp]: "use_array Begin 0 = {}"
  by (simp add: use_array_def)

lemma use_array_iff: "p \<in> use_array Begin n \<longleftrightarrow> (\<exists>i<n. p = ptr_add Begin (sizeof_Use * i))"
  by (auto simp: use_array_def)

lemma construct_Uses_eq:
  "construct_Uses Begin n P w =
     w\<lparr>use_at := (\<lambda>p. if p \<in> use_array Begin n then Some (fresh_Use P) else use_at w p),
       PrivateAllocatorData :=
         (\<lambda>p. if p \<in> use_array Begin n then None else PrivateAllocatorData w p)\<rparr>"
proof (induction n arbitrary: Begin w)
  case 0
  show ?case by simp
next
  case (Suc n)
  show ?case
    by (rule world.equality)
      (auto simp: Suc.IH Use_ctor_def fun_eq_iff use_array_Suc fresh_Use_def)
qed

lemma GetReuseBucketIndex_ok: "S \<le> 4096 \<Longrightarrow> \<exists>r. GetReuseBucketIndex S = Inr r"
  using GetReuseBucketIndex_small by blast

lemma Allocate_total:
  assumes "0 < S"
  shows "\<exists>p a1 w1. Allocate a S w = Inr (p, a1, w1)"
proof (cases "LargeAllocationThreshold < S")
  case True
  then show ?thesis using Allocate_large by blast
next
  case False
  then have S: "S \<le> 4096" by (simp add: LargeAllocationThreshold_def)
  obtain r where r: "GetReuseBucketIndex S = Inr r" using GetReuseBucketIndex_ok[OF S] by blast
  show ?thesis
  proof (cases "TryPopFree a r")
    case None
    then show ?thesis using carve_result[OF assms S, of a w] False r by (auto simp: Allocate_def)
  next
    case (Some x)
    then show ?thesis using False r by (cases x) (simp add: Allocate_def)
  qed
qed

lemma UserAlloc_total:
  assumes "0 < S"
  shows "\<exists>p w1. UserAlloc S w = Inr (p, w1)"
proof (cases "g_ThreadUserAllocatorTls w")
  case None
  then show ?thesis by (cases "platform_new w") (simp add: UserAlloc_def)
next
  case (Some a)
  obtain p a1 w1 where "Allocate a S w = Inr (p, a1, w1)" using Allocate_total[OF assms] by blast
  with Some show ?thesis by (simp add: UserAlloc_def)
qed

text \<open>
  Claim C3. \<open>operator new\<close> with an operand count that does not fit
  \<open>NumUserOperandsBits\<close> fails its assertion. With a count \<open>Us\<close> that fits (and a
  class size that is positive and below \<open>2 ^ 63\<close>), it makes one allocation of
  \<open>Size + sizeof(Use) * Us\<close> bytes, returns the address \<open>sizeof(Use) * Us\<close> bytes into it
  as the User, constructs at the \<open>Us\<close> Use-sized steps before the User a Use with \<open>Val\<close>,
  \<open>Next\<close> and \<open>Prev\<close> null and \<open>Parent\<close> the new User, constructs no other Use, and
  sets \<open>NumUserOperands = Us\<close> and \<open>HasHungOffUses = false\<close>.
\<close>

theorem inline_construction:
  "(\<not> Us < 2 ^ NumUserOperandsBits \<longrightarrow> operator_new Size Us w = Inl AssertionFailed) \<and>
   (Us < 2 ^ NumUserOperandsBits \<and> 0 < Size \<and> Size < 2 ^ 63 \<longrightarrow>
     (\<exists>Storage w1 w'.
        UserAlloc (Size + sizeof_Use * Us) w = Inr (Storage, w1)
      \<and> operator_new Size Us w = Inr (ptr_add Storage (sizeof_Use * Us), w')
      \<and> (\<forall>i<Us. use_at w' (ptr_add Storage (sizeof_Use * i))
                  = Some \<lparr>Val = None, Next = None, Prev = None,
                          Parent = Some (ptr_add Storage (sizeof_Use * Us))\<rparr>)
      \<and> (\<forall>p. p \<notin> use_array Storage Us \<longrightarrow> use_at w' p = use_at w1 p)
      \<and> user_at w' (ptr_add Storage (sizeof_Use * Us))
           = Some \<lparr>NumUserOperands = Us, HasHungOffUses = False\<rparr>
      \<and> UseList w' = UseList w1))"
proof (intro conjI impI)
  assume "\<not> Us < 2 ^ NumUserOperandsBits"
  then show "operator_new Size Us w = Inl AssertionFailed" by (simp add: operator_new_def)
next
  assume a: "Us < 2 ^ NumUserOperandsBits \<and> 0 < Size \<and> Size < 2 ^ 63"
  then have "sizeof_Use * Us < 2 ^ 32" by (simp add: NumUserOperandsBits_def sizeof_Use_def)
  then have "Size + sizeof_Use * Us < 2 ^ 64" using a by simp
  then have m: "(Size + sizeof_Use * Us) mod 2 ^ 64 = Size + sizeof_Use * Us" by simp
  obtain Storage w1 where A: "UserAlloc (Size + sizeof_Use * Us) w = Inr (Storage, w1)"
    using UserAlloc_total[of "Size + sizeof_Use * Us" w] a by auto
  define Obj where "Obj = ptr_add Storage (sizeof_Use * Us)"
  define w' where "w' = construct_Uses Storage Us Obj
     (w1\<lparr>user_at := (user_at w1)(Obj \<mapsto> \<lparr>NumUserOperands = Us, HasHungOffUses = False\<rparr>)\<rparr>)"
  have n: "operator_new Size Us w = Inr (Obj, w')"
    using a A unfolding operator_new_def m by (simp add: Let_def Obj_def w'_def)
  have u: "use_at w' p = (if p \<in> use_array Storage Us then Some (fresh_Use Obj) else use_at w1 p)" for p
    by (simp add: w'_def construct_Uses_eq)
  have "\<forall>i<Us. use_at w' (ptr_add Storage (sizeof_Use * i)) = Some (fresh_Use Obj)"
    by (auto simp: u use_array_iff)
  moreover have "\<forall>p. p \<notin> use_array Storage Us \<longrightarrow> use_at w' p = use_at w1 p" by (simp add: u)
  moreover have "user_at w' Obj = Some \<lparr>NumUserOperands = Us, HasHungOffUses = False\<rparr>"
    "UseList w' = UseList w1"
    by (simp_all add: w'_def construct_Uses_eq)
  ultimately show "\<exists>Storage w1 w'.
        UserAlloc (Size + sizeof_Use * Us) w = Inr (Storage, w1)
      \<and> operator_new Size Us w = Inr (ptr_add Storage (sizeof_Use * Us), w')
      \<and> (\<forall>i<Us. use_at w' (ptr_add Storage (sizeof_Use * i))
                  = Some \<lparr>Val = None, Next = None, Prev = None,
                          Parent = Some (ptr_add Storage (sizeof_Use * Us))\<rparr>)
      \<and> (\<forall>p. p \<notin> use_array Storage Us \<longrightarrow> use_at w' p = use_at w1 p)
      \<and> user_at w' (ptr_add Storage (sizeof_Use * Us))
           = Some \<lparr>NumUserOperands = Us, HasHungOffUses = False\<rparr>
      \<and> UseList w' = UseList w1"
    using A n unfolding Obj_def fresh_Use_def by blast
qed

text \<open>
  The theorem in the initial world: \<open>2 ^ 27\<close> operands are refused; three operands and a
  class of 64 bytes give Uses at offsets 0, 32 and 64 and the User at offset 96.
\<close>

theorem inline_construction_witness:
  "operator_new 64 (2 ^ 27) world0 = Inl AssertionFailed
   \<and> (3::nat) < 2 ^ NumUserOperandsBits \<and> (0::nat) < 64 \<and> (64::nat) < 2 ^ 63
   \<and> (\<exists>w'. operator_new 64 3 world0 = Inr (Ptr 0 96, w')
         \<and> use_at w' (Ptr 0 0) = Some \<lparr>Val = None, Next = None, Prev = None, Parent = Some (Ptr 0 96)\<rparr>
         \<and> use_at w' (Ptr 0 32) = Some \<lparr>Val = None, Next = None, Prev = None, Parent = Some (Ptr 0 96)\<rparr>
         \<and> use_at w' (Ptr 0 64) = Some \<lparr>Val = None, Next = None, Prev = None, Parent = Some (Ptr 0 96)\<rparr>
         \<and> use_at w' (Ptr 0 96) = None
         \<and> user_at w' (Ptr 0 96) = Some \<lparr>NumUserOperands = 3, HasHungOffUses = False\<rparr>)"
proof -
  have big: "\<not> (2::nat) ^ 27 < 2 ^ NumUserOperandsBits" by (simp add: NumUserOperandsBits_def)
  have f: "operator_new 64 (2 ^ 27) world0 = Inl AssertionFailed"
    using inline_construction[of "2 ^ 27" 64 world0] big by blast
  have h: "(3::nat) < 2 ^ NumUserOperandsBits \<and> (0::nat) < 64 \<and> (64::nat) < 2 ^ 63"
    by (simp add: NumUserOperandsBits_def)
  from inline_construction[of 3 64 world0] h
  obtain Storage w1 w' where r:
    "UserAlloc (64 + sizeof_Use * 3) world0 = Inr (Storage, w1)"
    "operator_new 64 3 world0 = Inr (ptr_add Storage (sizeof_Use * 3), w')"
    "\<forall>i<3. use_at w' (ptr_add Storage (sizeof_Use * i))
                  = Some \<lparr>Val = None, Next = None, Prev = None,
                          Parent = Some (ptr_add Storage (sizeof_Use * 3))\<rparr>"
    "\<forall>p. p \<notin> use_array Storage 3 \<longrightarrow> use_at w' p = use_at w1 p"
    "user_at w' (ptr_add Storage (sizeof_Use * 3))
           = Some \<lparr>NumUserOperands = 3, HasHungOffUses = False\<rparr>"
    by blast
  from r(1) have S: "Storage = Ptr 0 0" and w1: "use_at w1 = Map.empty"
    by (auto simp: UserAlloc_def world0_def platform_new_def)
  have "Ptr 0 96 \<notin> use_array (Ptr 0 0) 3"
    by (auto simp: use_array_iff ptr_add_def sizeof_Use_def)
  with r(4) S w1 have "use_at w' (Ptr 0 96) = None" by simp
  moreover have "use_at w' (ptr_add Storage (sizeof_Use * 0))
      = Some \<lparr>Val = None, Next = None, Prev = None, Parent = Some (ptr_add Storage (sizeof_Use * 3))\<rparr>"
    using r(3)[rule_format, of 0] by simp
  moreover have "use_at w' (ptr_add Storage (sizeof_Use * 1))
      = Some \<lparr>Val = None, Next = None, Prev = None, Parent = Some (ptr_add Storage (sizeof_Use * 3))\<rparr>"
    using r(3)[rule_format, of 1] by simp
  moreover have "use_at w' (ptr_add Storage (sizeof_Use * 2))
      = Some \<lparr>Val = None, Next = None, Prev = None, Parent = Some (ptr_add Storage (sizeof_Use * 3))\<rparr>"
    using r(3)[rule_format, of 2] by simp
  ultimately show ?thesis using f h r(2,5) unfolding S
    by (simp add: ptr_add_def sizeof_Use_def)
qed

lemma use_array_Suc_last:
  "use_array Begin (Suc n) = insert (ptr_add Begin (sizeof_Use * n)) (use_array Begin n)"
  by (auto simp: use_array_def lessThan_Suc)

lemma self_eq_ptr_add [simp]: "p = ptr_add p a \<longleftrightarrow> a = 0"
  by (cases p) (simp add: ptr_add_def)

lemma ptr_sub_add: "ptr_sub (ptr_add p n) n = Inr p"
  by (cases p) (simp add: ptr_sub_def ptr_add_def)

lemma ptr_sub_add_step:
  "ptr_sub (ptr_add p (sizeof_Use * Suc n)) sizeof_Use = Inr (ptr_add p (sizeof_Use * n))"
  by (cases p) (simp add: ptr_sub_def ptr_add_def)

lemma ptr_sub_Inr: "ptr_sub p n = Inr q \<Longrightarrow> p = ptr_add q n"
  by (cases p) (auto simp: ptr_sub_def ptr_add_def split: if_splits)

lemma remove1_filter_distinct: "distinct xs \<Longrightarrow> remove1 u xs = filter (\<lambda>x. x \<noteq> u) xs"
  by (induction xs) (auto intro!: filter_True[symmetric])

lemma filter_unlink:
  assumes "rep {} L w" "use_at w u = Some r"
  shows "filter (\<lambda>x. x \<notin> A) (unlink_from (Val r) u L v) = filter (\<lambda>x. x \<notin> insert u A) (L v)"
proof (cases "Val r = Some v")
  case True
  have "distinct (L v)" using assms(1) unfolding rep_def by blast
  then show ?thesis using True
    by (simp add: link_unlink_at remove1_filter_distinct conj_commute)
next
  case False
  have "u \<notin> set (L v)"
  proof
    assume "u \<in> set (L v)"
    from rep_member[OF assms(1) this] assms(2) False show False by simp
  qed
  then have "filter (\<lambda>x. x \<notin> insert u A) (L v) = filter (\<lambda>x. x \<notin> A) (L v)"
    by (intro filter_cong) auto
  with False show ?thesis by (simp add: link_unlink_at)
qed

lemma zap_loop_rep:
  assumes "rep {} L w" "\<forall>i<n. use_at w (ptr_add Start (sizeof_Use * i)) \<noteq> None"
  shows "\<exists>w'. zap_loop Start (ptr_add Start (sizeof_Use * n)) w = Inr w'
           \<and> rep {} (\<lambda>v. filter (\<lambda>x. x \<notin> use_array Start n) (L v)) w'
           \<and> relinked (use_array Start n) w w'
           \<and> (\<forall>p \<in> use_array Start n. use_at w' p = None)"
  using assms
proof (induction n arbitrary: w L)
  case 0
  have "zap_loop Start Start w = Inr w" by (subst zap_loop.simps) simp
  with 0 relinked_refl show ?case by simp
next
  case (Suc n)
  let ?u = "ptr_add Start (sizeof_Use * n)"
  obtain r where r: "use_at w ?u = Some r" using Suc.prems(2) by auto
  obtain w1 where w1: "Use_dtor ?u w = Inr w1" "rep {} (unlink_from (Val r) ?u L) w1"
    "relinked {?u} w w1" "use_at w1 ?u = None"
    using Use_dtor_rep[OF Suc.prems(1) r] by blast
  have live: "\<forall>i<n. use_at w1 (ptr_add Start (sizeof_Use * i)) \<noteq> None"
  proof (intro allI impI)
    fix i assume i: "i < n"
    then have "ptr_add Start (sizeof_Use * i) \<notin> {?u}" by (simp add: sizeof_Use_def)
    moreover have "use_at w (ptr_add Start (sizeof_Use * i)) \<noteq> None" using Suc.prems(2) i by simp
    ultimately show "use_at w1 (ptr_add Start (sizeof_Use * i)) \<noteq> None"
      using relinked_None[OF w1(3), of "ptr_add Start (sizeof_Use * i)"] by simp
  qed
  from Suc.IH[OF w1(2) live] obtain w' where w':
    "zap_loop Start ?u w1 = Inr w'"
    "rep {} (\<lambda>v. filter (\<lambda>x. x \<notin> use_array Start n) (unlink_from (Val r) ?u L v)) w'"
    "relinked (use_array Start n) w1 w'"
    "\<forall>p \<in> use_array Start n. use_at w' p = None" by blast
  have nz: "sizeof_Use \<noteq> 0" by (simp add: sizeof_Use_def)
  have z: "zap_loop Start (ptr_add Start (sizeof_Use * Suc n)) w = Inr w'"
    by (subst zap_loop.simps) (simp add: nz ptr_sub_add_step w1(1) w'(1) del: mult_Suc_right)
  have un: "?u \<notin> use_array Start n" by (auto simp: use_array_iff sizeof_Use_def)
  have "(\<lambda>v. filter (\<lambda>x. x \<notin> use_array Start n) (unlink_from (Val r) ?u L v))
      = (\<lambda>v. filter (\<lambda>x. x \<notin> use_array Start (Suc n)) (L v))"
    by (rule ext) (simp add: filter_unlink[OF Suc.prems(1) r] use_array_Suc_last del: mult_Suc_right)
  with w'(2) have rp: "rep {} (\<lambda>v. filter (\<lambda>x. x \<notin> use_array Start (Suc n)) (L v)) w'" by simp
  have rl: "relinked (use_array Start (Suc n)) w w'"
    using relinked_trans[OF w1(3) w'(3)] by (simp add: use_array_Suc_last del: mult_Suc_right)
  have "use_at w' ?u = None" using relinked_None[OF w'(3) un] w1(4) by simp
  with w'(4) have dead: "\<forall>p \<in> use_array Start (Suc n). use_at w' p = None"
    by (simp add: use_array_Suc_last del: mult_Suc_right)
  from z rp rl dead show ?case by blast
qed

lemma rep_cong:
  assumes "use_at w' = use_at w" "UseList w' = UseList w"
  shows "rep D L w' = rep D L w"
proof -
  have "dll w' v s p us = dll w v s p us" for v s p us
    by (rule dll_frame) (simp add: assms(1))
  then show ?thesis unfolding rep_def use_list_def assms by simp
qed

lemma release_rep:
  assumes "rep D L w" and "\<forall>p r. buffer p \<in> B \<and> use_at w p = Some r \<longrightarrow> Val r = None"
  shows "rep D L (release B w)"
proof -
  have keep: "use_at (release B w) u = use_at w u" if "u \<in> set (L v)" for u v
  proof -
    from rep_member[OF assms(1) that] obtain r where "use_at w u = Some r" "Val r = Some v" by blast
    with assms(2) have "buffer u \<notin> B" by force
    then show ?thesis by simp
  qed
  have "dll (release B w) v s p (L v) = dll w v s p (L v)" for v s p
    by (rule dll_frame) (rule keep)
  moreover have "u \<in> set (L v)"
    if "use_at (release B w) u = Some r" "Val r = Some v" "u \<notin> D" for u r v
  proof -
    from that(1) have "use_at w u = Some r" by (simp split: if_splits)
    with assms(1) that(2,3) show ?thesis unfolding rep_def by blast
  qed
  ultimately show ?thesis using assms(1) unfolding rep_def use_list_def by simp
qed

lemma relinked_eq:
  "relinked X w w1 \<Longrightarrow> w1 = w\<lparr>use_at := use_at w1, UseList := UseList w1\<rparr>"
  unfolding relinked_def by auto

lemma unlinked_allI:
  assumes "rep {} (\<lambda>v. filter (\<lambda>x. x \<notin> A) (L v)) w" "\<forall>p \<in> A. use_at w p = None"
  shows "unlinked_all L A w"
proof -
  have "set us \<inter> A = {}" if "use_list w v us" for v us
  proof -
    have "use_list w v (filter (\<lambda>x. x \<notin> A) (L v))" using assms(1) unfolding rep_def by blast
    with that have "us = filter (\<lambda>x. x \<notin> A) (L v)" unfolding use_list_def by (rule dll_unique)
    then show ?thesis by auto
  qed
  with assms show ?thesis unfolding unlinked_all_def by blast
qed

lemma hung_rep: "rep {} hung_lists hung_world"
  unfolding rep_def
proof (intro conjI allI impI)
  fix v
  show "use_list hung_world v (hung_lists v)"
    by (simp add: use_list_def hung_world_def hung_lists_def world0_def)
  show "distinct (hung_lists v)" by (simp add: hung_lists_def)
  show "set (hung_lists v) \<inter> {} = {}" by simp
next
  fix u r v assume "use_at hung_world u = Some r" "Val r = Some v" "u \<notin> {}"
  then show "u \<in> set (hung_lists v)"
    by (auto simp: hung_world_def hung_lists_def world0_def split: if_splits)
qed

lemma unlinked_all_lists:
  "unlinked_all L A w \<Longrightarrow> use_list w v (filter (\<lambda>x. x \<notin> A) (L v))"
  unfolding unlinked_all_def rep_def by blast

lemma use_array_3: "use_array p 3 = {p, ptr_add p sizeof_Use, ptr_add p (sizeof_Use * 2)}"
proof -
  have "{..<3::nat} = {0, 1, 2}" by auto
  then show ?thesis by (simp add: use_array_def)
qed

lemma use_array_2: "use_array p 2 = {p, ptr_add p sizeof_Use}"
proof -
  have "{..<2::nat} = {0, 1}" by auto
  then show ?thesis by (simp add: use_array_def)
qed

lemma removeFromList_user_at:
  "removeFromList u (w\<lparr>user_at := m\<rparr>) = map_sum id (\<lambda>x. x\<lparr>user_at := m\<rparr>) (removeFromList u w)"
  by (auto simp: removeFromList_def get_use_def write_slot_def modify_use_def setPrev_def
      split: option.splits slot.splits)

lemma Use_dtor_user_at:
  "Use_dtor u (w\<lparr>user_at := m\<rparr>) = map_sum id (\<lambda>x. x\<lparr>user_at := m\<rparr>) (Use_dtor u w)"
proof (cases "use_at w u")
  case None
  then show ?thesis by (simp add: Use_dtor_def get_use_def)
next
  case (Some r)
  show ?thesis
  proof (cases "Val r")
    case None
    with Some show ?thesis by (simp add: Use_dtor_def get_use_def)
  next
    case (Some v)
    show ?thesis
      using \<open>use_at w u = Some r\<close> Some
      by (cases "removeFromList u w") (simp_all add: Use_dtor_def get_use_def removeFromList_user_at)
  qed
qed

lemma zap_loop_user_at:
  "zap_loop Start Stop (w\<lparr>user_at := m\<rparr>) = map_sum id (\<lambda>x. x\<lparr>user_at := m\<rparr>) (zap_loop Start Stop w)"
proof (induction Start Stop w rule: zap_loop.induct)
  case (1 Start Stop w)
  show ?case
  proof (cases "Start = Stop")
    case True
    then show ?thesis by (simp add: zap_loop.simps)
  next
    case False
    show ?thesis
    proof (cases "ptr_sub Stop sizeof_Use")
      case (Inl e)
      with False show ?thesis by (simp add: zap_loop.simps[of Start Stop])
    next
      case (Inr Stop')
      show ?thesis
      proof (cases "Use_dtor Stop' w")
        case (Inl e)
        with False Inr show ?thesis
          by (simp add: zap_loop.simps[of Start Stop] Use_dtor_user_at)
      next
        case w1: (Inr w1)
        from "1.IH"[OF False Inr w1] False Inr w1 show ?thesis
          by (simp add: zap_loop.simps[of Start Stop] Use_dtor_user_at)
      qed
    qed
  qed
qed

lemma sizeof_Use_pos [simp]: "0 < sizeof_Use"
  by (simp add: sizeof_Use_def)

lemma getOperandList_relink:
  "getOperandList U (w\<lparr>use_at := A, UseList := H\<rparr>) = getOperandList U w"
  by (simp add: getOperandList_def get_user_def cong: if_cong)

lemma relinked_getOperandList:
  "relinked X w w' \<Longrightarrow> getOperandList U w' = getOperandList U w"
  using relinked_eq[of X w w'] getOperandList_relink by metis

lemma operand_use_eq:
  "getOperandList U w = Inr (Some Begin) \<Longrightarrow> operand_use U i w = Inr (ptr_add Begin (sizeof_Use * i))"
  by (simp add: operand_use_def)

lemma getOperand_eq:
  "getOperandList U w = Inr (Some Begin) \<Longrightarrow> use_at w (ptr_add Begin (sizeof_Use * i)) = Some r \<Longrightarrow>
   getOperand U i w = Inr (Val r)"
  by (simp add: getOperand_def operand_use_eq get_use_def)

lemma operand_inject [simp]:
  "ptr_add Begin (sizeof_Use * i) = ptr_add Begin (sizeof_Use * j) \<longleftrightarrow> i = j"
  by (simp add: sizeof_Use_def)

lemma replace_loop_rep:
  assumes "rep {} L w" "getOperandList U w = Inr (Some Begin)"
    and "\<forall>j. i \<le> j \<and> j < i + n \<longrightarrow> use_at w (ptr_add Begin (sizeof_Use * j)) \<noteq> None"
  shows "\<exists>w' L'. replace_loop U From To i n w = Inr w' \<and> rep {} L' w'
           \<and> relinked {ptr_add Begin (sizeof_Use * j) | j. i \<le> j \<and> j < i + n
                         \<and> getOperand U j w = Inr From} w w'
           \<and> (\<forall>j. i \<le> j \<and> j < i + n \<and> getOperand U j w = Inr From \<longrightarrow>
                 getOperand U j w' = Inr To)"
  using assms
proof (induction n arbitrary: i w L)
  case 0
  have "relinked {ptr_add Begin (sizeof_Use * j) | j. i \<le> j \<and> j < i + 0
                         \<and> getOperand U j w = Inr From} w w" by (rule relinked_refl)
  with 0 show ?case by auto
next
  case (Suc n)
  let ?u = "\<lambda>j. ptr_add Begin (sizeof_Use * j)"
  let ?X = "\<lambda>i n w. {?u j | j. i \<le> j \<and> j < i + n \<and> getOperand U j w = Inr From}"
  obtain r where r: "use_at w (?u i) = Some r" using Suc.prems(3) by force
  have g: "getOperand U i w = Inr (Val r)" using getOperand_eq[OF Suc.prems(2) r] .
  have only: "j = i" if "i \<le> j" "j < Suc i" for j using that by simp
  have X1eq: "?X i 1 w = (if Val r = From then {?u i} else {})"
  proof (cases "Val r = From")
    case True
    have "?X i 1 w = {?u i}"
    proof (intro set_eqI iffI)
      fix x assume "x \<in> ?X i 1 w"
      then obtain j where j: "x = ?u j" "i \<le> j" "j < Suc i" by auto
      from only[OF j(2,3)] j(1) show "x \<in> {?u i}" by simp
    next
      fix x assume "x \<in> {?u i}"
      then have "x = ?u i \<and> i \<le> i \<and> i < i + 1 \<and> getOperand U i w = Inr From"
        using g True by simp
      then show "x \<in> ?X i 1 w" by blast
    qed
    with True show ?thesis by simp
  next
    case False
    have "?X i 1 w = {}"
    proof (intro set_eqI iffI)
      fix x assume "x \<in> ?X i 1 w"
      then obtain j where j: "i \<le> j" "j < Suc i" "getOperand U j w = Inr From" by auto
      from only[OF j(1,2)] j(3) g False show "x \<in> {}" by simp
    qed simp
    with False show ?thesis by simp
  qed
  \<comment> \<open>the step on operand \<open>i\<close>\<close>
  have "\<exists>w1 L1. (if Val r = From then setOperand U i To w else Inr w) = Inr w1 \<and> rep {} L1 w1
          \<and> relinked (?X i 1 w) w w1
          \<and> (Val r = From \<longrightarrow> getOperand U i w1 = Inr To)"
  proof (cases "Val r = From")
    case True
    obtain w1 r1 where s: "Use_set (?u i) To w = Inr w1"
      "rep {} (if Val r = To then L else link_to To (?u i) (unlink_from (Val r) (?u i) L)) w1"
      "relinked {?u i} w w1" "use_at w1 (?u i) = Some r1" "Val r1 = To"
      using Use_set_rep[OF Suc.prems(1) r, of To] by blast
    have "?X i 1 w = {?u i}" using X1eq True by simp
    moreover have "getOperand U i w1 = Inr To"
      using getOperand_eq[of U w1 Begin i r1] relinked_getOperandList[OF s(3)] Suc.prems(2) s(4,5)
      by simp
    ultimately show ?thesis using True s(1,2,3)
      by (auto simp: setOperand_def operand_use_eq[OF Suc.prems(2)])
  next
    case False
    then have "?X i 1 w = {}" using X1eq by simp
    with False Suc.prems(1) relinked_refl show ?thesis by auto
  qed
  then obtain w1 L1 where w1: "(if Val r = From then setOperand U i To w else Inr w) = Inr w1"
    "rep {} L1 w1" "relinked (?X i 1 w) w w1" "Val r = From \<longrightarrow> getOperand U i w1 = Inr To"
    by blast
  have X1: "?X i 1 w \<subseteq> {?u i}" using X1eq by simp
  have gl: "getOperandList U w1 = Inr (Some Begin)"
    using relinked_getOperandList[OF w1(3)] Suc.prems(2) by simp
  have same: "getOperand U j w1 = getOperand U j w" if ji: "j \<noteq> i" and lj: "use_at w (?u j) \<noteq> None" for j
  proof -
    obtain rj where rj: "use_at w (?u j) = Some rj" using lj by auto
    have "?u j \<noteq> ?u i" using ji by simp
    then have "?u j \<notin> ?X i 1 w" using X1 by blast
    from relinked_use[OF w1(3) this rj] obtain rj' where "use_at w1 (?u j) = Some rj'" "Val rj' = Val rj"
      by blast
    then show ?thesis using getOperand_eq[OF gl] getOperand_eq[OF Suc.prems(2) rj] by simp
  qed
  have live1: "\<forall>j. Suc i \<le> j \<and> j < Suc i + n \<longrightarrow> use_at w1 (?u j) \<noteq> None"
  proof (intro allI impI)
    fix j assume j: "Suc i \<le> j \<and> j < Suc i + n"
    then have "?u j \<noteq> ?u i" by simp
    then have "?u j \<notin> ?X i 1 w" using X1 by blast
    moreover have "use_at w (?u j) \<noteq> None" using Suc.prems(3) j by simp
    ultimately show "use_at w1 (?u j) \<noteq> None" using relinked_None[OF w1(3), of "?u j"] by simp
  qed
  from Suc.IH[OF w1(2) gl live1] obtain w' L' where w':
    "replace_loop U From To (Suc i) n w1 = Inr w'" "rep {} L' w'"
    "relinked (?X (Suc i) n w1) w1 w'"
    "\<forall>j. Suc i \<le> j \<and> j < Suc i + n \<and> getOperand U j w1 = Inr From \<longrightarrow> getOperand U j w' = Inr To"
    by blast
  have Xeq: "?X (Suc i) n w1 = ?X (Suc i) n w"
  proof -
    have "getOperand U j w1 = getOperand U j w" if "Suc i \<le> j \<and> j < Suc i + n" for j
      using same[of j] that Suc.prems(3) by simp
    then show ?thesis by auto
  qed
  have Xsplit: "?X i 1 w \<union> ?X (Suc i) n w = ?X i (Suc n) w"
  proof -
    have "(i \<le> j \<and> j < i + 1) \<or> (Suc i \<le> j \<and> j < Suc i + n) \<longleftrightarrow> (i \<le> j \<and> j < i + Suc n)" for j
      by auto
    then show ?thesis by blast
  qed
  have run: "replace_loop U From To i (Suc n) w = Inr w'"
    using g w1(1) w'(1) by simp
  have rl: "relinked (?X i (Suc n) w) w w'"
    using relinked_trans[OF w1(3) w'(3)] unfolding Xeq Xsplit .
  have post: "getOperand U j w' = Inr To"
    if j: "i \<le> j \<and> j < i + Suc n \<and> getOperand U j w = Inr From" for j
  proof (cases "j = i")
    case True
    with j g have vr: "Val r = From" by simp
    with w1(4) have t: "getOperand U i w1 = Inr To" by simp
    have gl': "getOperandList U w' = Inr (Some Begin)"
      using relinked_getOperandList[OF w'(3)] gl by simp
    have "?u i \<notin> ?X (Suc i) n w1" by auto
    moreover obtain r1 where r1: "use_at w1 (?u i) = Some r1"
      using relinked_use[OF w1(3) _ r] relinked_None[OF w1(3), of "?u i"] r
      by (cases "use_at w1 (?u i)") (use t gl in \<open>auto simp: getOperand_def operand_use_eq get_use_def\<close>)
    ultimately obtain r' where r': "use_at w' (?u i) = Some r'" "Val r' = Val r1"
      using relinked_use[OF w'(3)] by blast
    have "Val r1 = To" using t getOperand_eq[OF gl r1] by simp
    with r' True show ?thesis using getOperand_eq[OF gl' r'(1)] by simp
  next
    case False
    with j have j': "Suc i \<le> j \<and> j < Suc i + n" by auto
    moreover have "getOperand U j w1 = Inr From" using same[of j] False j Suc.prems(3) by simp
    ultimately show ?thesis using w'(4) by blast
  qed
  from run w'(2) rl post show ?case by blast
qed

text \<open>
  Claim C7. \<open>replaceUsesOfWith\<close> is a no-op when \<open>From == To\<close>; otherwise it fails
  its assertion on a constant that is not a global. Otherwise, in a world with
  well-formed use-lists and the User's operand Uses alive, it succeeds and leaves the
  use-lists well-formed: every operand that was \<open>From\<close> is \<open>To\<close>, every other operand
  is what it was, nothing but the links and the rewritten Uses changed, afterwards the
  use-list of \<open>From\<close> holds no operand Use of this User, and every rewritten Use is on
  the use-list of \<open>To\<close>.
\<close>

theorem replaceUsesOfWith_rewrites:
  assumes "rep {} L w" "user_at w U = Some Obj" "getOperandList U w = Inr (Some Begin)"
    and "\<forall>i<NumUserOperands Obj. use_at w (ptr_add Begin (sizeof_Use * i)) \<noteq> None"
  shows "(From = To \<longrightarrow> replaceUsesOfWith U From To w = Inr w)
    \<and> (From \<noteq> To \<and> isa_Constant (SubclassID w U) \<and> \<not> isa_GlobalValue (SubclassID w U) \<longrightarrow>
          replaceUsesOfWith U From To w = Inl AssertionFailed)
    \<and> (From \<noteq> To \<and> (\<not> isa_Constant (SubclassID w U) \<or> isa_GlobalValue (SubclassID w U)) \<longrightarrow>
          (\<exists>w' L'. replaceUsesOfWith U From To w = Inr w' \<and> rep {} L' w'
             \<and> (\<forall>i<NumUserOperands Obj.
                   getOperand U i w' = (if getOperand U i w = Inr From then Inr To
                                         else getOperand U i w))
             \<and> relinked {ptr_add Begin (sizeof_Use * i) | i.
                           i < NumUserOperands Obj \<and> getOperand U i w = Inr From} w w'
             \<and> (\<forall>v. From = Some v \<longrightarrow> set (L' v) \<inter> use_array Begin (NumUserOperands Obj) = {})
             \<and> (\<forall>v. To = Some v \<longrightarrow>
                   (\<forall>i<NumUserOperands Obj. getOperand U i w = Inr From \<longrightarrow>
                      ptr_add Begin (sizeof_Use * i) \<in> set (L' v)))))"
proof (intro conjI impI)
  assume "From = To"
  then show "replaceUsesOfWith U From To w = Inr w" by (simp add: replaceUsesOfWith_def)
next
  assume "From \<noteq> To \<and> isa_Constant (SubclassID w U) \<and> \<not> isa_GlobalValue (SubclassID w U)"
  then show "replaceUsesOfWith U From To w = Inl AssertionFailed"
    by (simp add: replaceUsesOfWith_def)
next
  assume a: "From \<noteq> To \<and> (\<not> isa_Constant (SubclassID w U) \<or> isa_GlobalValue (SubclassID w U))"
  let ?n = "NumUserOperands Obj"
  let ?u = "\<lambda>j. ptr_add Begin (sizeof_Use * j)"
  let ?X = "{?u i | i. i < ?n \<and> getOperand U i w = Inr From}"
  have live: "\<forall>j. 0 \<le> j \<and> j < 0 + ?n \<longrightarrow> use_at w (?u j) \<noteq> None" using assms(4) by simp
  from replace_loop_rep[OF assms(1,3) live, of From To]
  obtain w' L' where r: "replace_loop U From To 0 ?n w = Inr w'" "rep {} L' w'"
    "relinked ?X w w'"
    "\<forall>j. j < ?n \<and> getOperand U j w = Inr From \<longrightarrow> getOperand U j w' = Inr To"
    by auto
  have run: "replaceUsesOfWith U From To w = Inr w'"
    using a assms(2) r(1) by (auto simp: replaceUsesOfWith_def getNumOperands_def get_user_def)
  have gl': "getOperandList U w' = Inr (Some Begin)"
    using relinked_getOperandList[OF r(3)] assms(3) by simp
  have ops: "getOperand U i w' = (if getOperand U i w = Inr From then Inr To else getOperand U i w)"
    if i: "i < ?n" for i
  proof (cases "getOperand U i w = Inr From")
    case True
    with r(4) i show ?thesis by simp
  next
    case False
    obtain ri where ri: "use_at w (?u i) = Some ri" using assms(4) i by auto
    have "?u i \<notin> ?X" using False by auto
    from relinked_use[OF r(3) this ri] obtain ri' where "use_at w' (?u i) = Some ri'" "Val ri' = Val ri"
      by blast
    then show ?thesis
      using False getOperand_eq[OF gl'] getOperand_eq[OF assms(3) ri] by simp
  qed
  have alive': "\<exists>ri'. use_at w' (?u i) = Some ri' \<and> getOperand U i w' = Inr (Val ri')" if i: "i < ?n" for i
  proof (cases "use_at w' (?u i)")
    case None
    then show ?thesis using ops[OF i] r(4) i assms(4) relinked_None[OF r(3), of "?u i"]
      by (cases "getOperand U i w = Inr From")
        (auto simp: getOperand_def operand_use_eq[OF gl'] get_use_def)
  next
    case (Some ri')
    then show ?thesis using getOperand_eq[OF gl' Some] by simp
  qed
  have nofrom: "set (L' v) \<inter> use_array Begin ?n = {}" if v: "From = Some v" for v
  proof (rule ccontr)
    assume "set (L' v) \<inter> use_array Begin ?n \<noteq> {}"
    then obtain i where i: "i < ?n" "?u i \<in> set (L' v)" by (auto simp: use_array_iff)
    from rep_member[OF r(2) i(2)] alive'[OF i(1)] have "getOperand U i w' = Inr From"
      using v by auto
    with ops[OF i(1)] a show False by (auto split: if_splits)
  qed
  have into: "?u i \<in> set (L' v)" if v: "To = Some v" and i: "i < ?n" "getOperand U i w = Inr From" for v i
  proof -
    from alive'[OF i(1)] ops[OF i(1)] i(2) v obtain ri' where
      "use_at w' (?u i) = Some ri'" "Val ri' = Some v" by auto
    with r(2) show ?thesis unfolding rep_def by blast
  qed
  from run r(2,3) ops nofrom into
  show "\<exists>w' L'. replaceUsesOfWith U From To w = Inr w' \<and> rep {} L' w'
             \<and> (\<forall>i<NumUserOperands Obj.
                   getOperand U i w' = (if getOperand U i w = Inr From then Inr To
                                         else getOperand U i w))
             \<and> relinked {ptr_add Begin (sizeof_Use * i) | i.
                           i < NumUserOperands Obj \<and> getOperand U i w = Inr From} w w'
             \<and> (\<forall>v. From = Some v \<longrightarrow> set (L' v) \<inter> use_array Begin (NumUserOperands Obj) = {})
             \<and> (\<forall>v. To = Some v \<longrightarrow>
                   (\<forall>i<NumUserOperands Obj. getOperand U i w = Inr From \<longrightarrow>
                      ptr_add Begin (sizeof_Use * i) \<in> set (L' v)))"
    by blast
qed

lemma demo_operands:
  "getOperandList (Ptr 0 96) demo_world = Inr (Some (Ptr 0 0))"
  "getOperand (Ptr 0 96) 0 demo_world = Inr (Some 1)"
  "getOperand (Ptr 0 96) 1 demo_world = Inr (Some 1)"
  "getOperand (Ptr 0 96) 2 demo_world = Inr (Some 2)"
  "getOperand (Ptr 0 96) 0 demo_world = Inr (Some (Suc 0))"
  "getOperand (Ptr 0 96) (Suc 0) demo_world = Inr (Some (Suc 0))"
  by (simp_all add: getOperand_def operand_use_def getOperandList_def get_user_def get_use_def
      demo_world_def ptr_sub_def ptr_add_def sizeof_Use_def)

lemma demo_live:
  "\<forall>i<3. use_at demo_world (ptr_add (Ptr 0 0) (sizeof_Use * i)) \<noteq> None"
proof (intro allI impI)
  fix i :: nat assume "i < 3"
  then have "i = 0 \<or> i = 1 \<or> i = 2" by auto
  then show "use_at demo_world (ptr_add (Ptr 0 0) (sizeof_Use * i)) \<noteq> None"
    by (auto simp: demo_world_def ptr_add_def sizeof_Use_def)
qed

text \<open>
  The theorem in the example world: replacing Value 1 by Value 2 in the User rewrites
  operands 0 and 1 and leaves operand 2; replacing a Value by itself changes nothing; on
  a constant the assertion fails.
\<close>

theorem replaceUsesOfWith_rewrites_witness:
  "rep {} demo_lists demo_world
   \<and> replaceUsesOfWith (Ptr 0 96) (Some 1) (Some 1) demo_world = Inr demo_world
   \<and> replaceUsesOfWith (Ptr 0 96) (Some 1) (Some 2) (demo_world\<lparr>SubclassID := \<lambda>_. ConstantVal\<rparr>)
       = Inl AssertionFailed
   \<and> (\<exists>w' L'. replaceUsesOfWith (Ptr 0 96) (Some 1) (Some 2) demo_world = Inr w' \<and> rep {} L' w'
         \<and> getOperand (Ptr 0 96) 0 w' = Inr (Some 2)
         \<and> getOperand (Ptr 0 96) 1 w' = Inr (Some 2)
         \<and> getOperand (Ptr 0 96) 2 w' = Inr (Some 2)
         \<and> set (L' 1) \<inter> {Ptr 0 0, Ptr 0 32, Ptr 0 64} = {}
         \<and> Ptr 0 0 \<in> set (L' 2) \<and> Ptr 0 32 \<in> set (L' 2))"
proof -
  have u: "user_at demo_world (Ptr 0 96) = Some \<lparr>NumUserOperands = 3, HasHungOffUses = False\<rparr>"
    by (simp add: demo_world_def)
  have l: "\<forall>i<NumUserOperands \<lparr>NumUserOperands = 3, HasHungOffUses = False\<rparr>.
             use_at demo_world (ptr_add (Ptr 0 0) (sizeof_Use * i)) \<noteq> None"
    using demo_live by simp
  note T = replaceUsesOfWith_rewrites[OF demo_rep u demo_operands(1) l]
  have k: "\<not> isa_Constant (SubclassID demo_world (Ptr 0 96))"
    by (simp add: isa_Constant_def demo_world_def world0_def)
  have noop: "replaceUsesOfWith (Ptr 0 96) (Some 1) (Some 1) demo_world = Inr demo_world"
    using T[of "Some 1" "Some 1"] by simp
  let ?c = "demo_world\<lparr>SubclassID := \<lambda>_. ConstantVal\<rparr>"
  have "rep {} demo_lists ?c" using rep_cong[of ?c demo_world] demo_rep by simp
  moreover have "user_at ?c (Ptr 0 96) = Some \<lparr>NumUserOperands = 3, HasHungOffUses = False\<rparr>"
    using u by simp
  moreover have "getOperandList (Ptr 0 96) ?c = Inr (Some (Ptr 0 0))"
    using demo_operands(1) by (simp add: getOperandList_def get_user_def cong: if_cong)
  moreover have "\<forall>i<NumUserOperands \<lparr>NumUserOperands = 3, HasHungOffUses = False\<rparr>.
             use_at ?c (ptr_add (Ptr 0 0) (sizeof_Use * i)) \<noteq> None"
    using demo_live by simp
  ultimately have fail: "replaceUsesOfWith (Ptr 0 96) (Some 1) (Some 2) ?c = Inl AssertionFailed"
    using replaceUsesOfWith_rewrites[of demo_lists ?c "Ptr 0 96" _ "Ptr 0 0" "Some 1" "Some 2"]
    by (simp add: isa_Constant_def isa_GlobalValue_def)
  from T[of "Some 1" "Some 2"] k
  obtain w' L' where r: "replaceUsesOfWith (Ptr 0 96) (Some 1) (Some 2) demo_world = Inr w'"
    "rep {} L' w'"
    "\<forall>i<3. getOperand (Ptr 0 96) i w'
        = (if getOperand (Ptr 0 96) i demo_world = Inr (Some 1) then Inr (Some 2)
           else getOperand (Ptr 0 96) i demo_world)"
    "set (L' 1) \<inter> use_array (Ptr 0 0) 3 = {}"
    "\<forall>i<3. getOperand (Ptr 0 96) i demo_world = Inr (Some 1) \<longrightarrow>
        ptr_add (Ptr 0 0) (sizeof_Use * i) \<in> set (L' 2)"
    by auto
  have g: "getOperand (Ptr 0 96) 0 w' = Inr (Some 2)" "getOperand (Ptr 0 96) 1 w' = Inr (Some 2)"
    "getOperand (Ptr 0 96) 2 w' = Inr (Some 2)"
    using r(3)[rule_format, of 0] r(3)[rule_format, of 1] r(3)[rule_format, of 2]
    by (simp_all add: demo_operands)
  have m: "Ptr 0 0 \<in> set (L' 2)" "Ptr 0 32 \<in> set (L' 2)"
    using r(5)[rule_format, of 0] r(5)[rule_format, of 1]
    by (simp_all add: demo_operands ptr_add_def sizeof_Use_def)
  have e: "set (L' 1) \<inter> {Ptr 0 0, Ptr 0 32, Ptr 0 64} = {}"
    using r(4) by (simp add: use_array_3 ptr_add_def sizeof_Use_def)
  from demo_rep noop fail r(1,2) g m e show ?thesis by blast
qed

lemma sizeof_Use_neq0 [simp]: "sizeof_Use \<noteq> 0"
  by (simp add: sizeof_Use_def)

lemma sizeof_ptr_neq0 [simp]: "sizeof_ptr \<noteq> 0"
  by (simp add: sizeof_ptr_def)

lemma construct_rep:
  assumes "rep D L w" "\<forall>p \<in> A. \<forall>r. use_at w p = Some r \<longrightarrow> Val r = None"
  shows "rep D L (w\<lparr>use_at := (\<lambda>p. if p \<in> A then Some (fresh_Use P) else use_at w p)\<rparr>)"
  unfolding rep_def
proof (intro conjI allI impI)
  let ?w = "w\<lparr>use_at := (\<lambda>p. if p \<in> A then Some (fresh_Use P) else use_at w p)\<rparr>"
  fix v
  have nin: "u \<notin> A" if "u \<in> set (L v)" for u
  proof
    assume "u \<in> A"
    with rep_member[OF assms(1) that] assms(2) show False by auto
  qed
  have "dll ?w v (UseListOf v) (UseList w v) (L v) = dll w v (UseListOf v) (UseList w v) (L v)"
    by (rule dll_frame) (simp add: nin)
  then show "use_list ?w v (L v)" using assms(1) unfolding rep_def use_list_def by simp
  show "distinct (L v)" "set (L v) \<inter> D = {}" using assms(1) unfolding rep_def by blast+
next
  let ?w = "w\<lparr>use_at := (\<lambda>p. if p \<in> A then Some (fresh_Use P) else use_at w p)\<rparr>"
  fix u r v assume a: "use_at ?w u = Some r" "Val r = Some v" "u \<notin> D"
  then have "u \<notin> A" by (auto simp: fresh_Use_def split: if_splits)
  with a assms(1) show "u \<in> set (L v)" unfolding rep_def by auto
qed

lemma copy_Uses_rep:
  assumes "rep {} L w"
    and "\<forall>i<n. use_at w (ptr_add From (sizeof_Use * i)) \<noteq> None"
    and "\<forall>i<n. \<exists>r. use_at w (ptr_add To (sizeof_Use * i)) = Some r \<and> Val r = None"
    and "use_array From n \<inter> use_array To n = {}"
  shows "\<exists>w' L'. copy_Uses From To n w = Inr w' \<and> rep {} L' w'
           \<and> relinked (use_array To n) w w'
           \<and> (\<forall>i<n. \<exists>r r'. use_at w (ptr_add From (sizeof_Use * i)) = Some r
                  \<and> use_at w' (ptr_add To (sizeof_Use * i)) = Some r' \<and> Val r' = Val r)"
  using assms
proof (induction n arbitrary: From To w L)
  case 0
  then show ?case using relinked_refl by auto
next
  case (Suc n)
  let ?F = "ptr_add From sizeof_Use" and ?T = "ptr_add To sizeof_Use"
  obtain r where r: "use_at w From = Some r" using Suc.prems(2)[rule_format, of 0] by auto
  obtain t where t: "use_at w To = Some t" "Val t = None"
    using Suc.prems(3)[rule_format, of 0] by auto
  obtain w1 t1 where w1: "Use_set To (Val r) w = Inr w1"
    "rep {} (if Val t = Val r then L else link_to (Val r) To (unlink_from (Val t) To L)) w1"
    "relinked {To} w w1" "use_at w1 To = Some t1" "Val t1 = Val r"
    using Use_set_rep[OF Suc.prems(1) t(1), of "Val r"] by blast
  have FT: "use_array From (Suc n) = insert From (use_array ?F n)"
    "use_array To (Suc n) = insert To (use_array ?T n)" by (simp_all add: use_array_Suc)
  have disj: "use_array ?F n \<inter> use_array ?T n = {}" "To \<notin> use_array ?F n" "To \<notin> use_array ?T n"
    "From \<noteq> To"
    using Suc.prems(4) unfolding FT by (auto simp: use_array_iff)
  have stepF: "ptr_add ?F (sizeof_Use * i) = ptr_add From (sizeof_Use * Suc i)" for i by simp
  have stepT: "ptr_add ?T (sizeof_Use * i) = ptr_add To (sizeof_Use * Suc i)" for i by simp
  have inF: "ptr_add ?F (sizeof_Use * i) \<in> use_array ?F n" if "i < n" for i
    using that by (auto simp: use_array_iff)
  have inT: "ptr_add ?T (sizeof_Use * i) \<in> use_array ?T n" if "i < n" for i
    using that by (auto simp: use_array_iff)
  have liveF: "\<forall>i<n. use_at w1 (ptr_add ?F (sizeof_Use * i)) \<noteq> None"
  proof (intro allI impI)
    fix i assume i: "i < n"
    have "ptr_add ?F (sizeof_Use * i) \<notin> {To}" using inF[OF i] disj(2) by auto
    moreover have "use_at w (ptr_add ?F (sizeof_Use * i)) \<noteq> None"
      using Suc.prems(2)[rule_format, of "Suc i"] i unfolding stepF by simp
    ultimately show "use_at w1 (ptr_add ?F (sizeof_Use * i)) \<noteq> None"
      using relinked_None[OF w1(3), of "ptr_add ?F (sizeof_Use * i)"] by simp
  qed
  have freshT: "\<forall>i<n. \<exists>r. use_at w1 (ptr_add ?T (sizeof_Use * i)) = Some r \<and> Val r = None"
  proof (intro allI impI)
    fix i assume i: "i < n"
    have nt: "ptr_add ?T (sizeof_Use * i) \<notin> {To}" using inT[OF i] disj(3) by auto
    obtain q where "use_at w (ptr_add ?T (sizeof_Use * i)) = Some q" "Val q = None"
      using Suc.prems(3)[rule_format, of "Suc i"] i unfolding stepT by auto
    with relinked_use[OF w1(3) nt] show "\<exists>r. use_at w1 (ptr_add ?T (sizeof_Use * i)) = Some r \<and> Val r = None"
      by fastforce
  qed
  from Suc.IH[OF w1(2) liveF freshT disj(1)] obtain w' L' where w':
    "copy_Uses ?F ?T n w1 = Inr w'" "rep {} L' w'" "relinked (use_array ?T n) w1 w'"
    "\<forall>i<n. \<exists>r r'. use_at w1 (ptr_add ?F (sizeof_Use * i)) = Some r
                  \<and> use_at w' (ptr_add ?T (sizeof_Use * i)) = Some r' \<and> Val r' = Val r"
    by blast
  have run: "copy_Uses From To (Suc n) w = Inr w'"
    using r w1(1) w'(1) by (simp add: get_use_def)
  have rl: "relinked (use_array To (Suc n)) w w'"
    using relinked_trans[OF w1(3) w'(3)] unfolding FT by simp
  have vals: "\<exists>r r'. use_at w (ptr_add From (sizeof_Use * i)) = Some r
                  \<and> use_at w' (ptr_add To (sizeof_Use * i)) = Some r' \<and> Val r' = Val r"
    if i: "i < Suc n" for i
  proof (cases i)
    case 0
    obtain t' where "use_at w' To = Some t'" "Val t' = Val t1"
      using relinked_use[OF w'(3) disj(3) w1(4)] by blast
    with 0 r w1(5) show ?thesis by simp
  next
    case (Suc k)
    with i have k: "k < n" by simp
    from w'(4)[rule_format, OF k] obtain q q' where q:
      "use_at w1 (ptr_add ?F (sizeof_Use * k)) = Some q"
      "use_at w' (ptr_add ?T (sizeof_Use * k)) = Some q'" "Val q' = Val q" by blast
    have "ptr_add ?F (sizeof_Use * k) \<notin> {To}" using inF[OF k] disj(2) by auto
    from relinked_use_back[OF w1(3) this q(1)] obtain q0 where
      "use_at w (ptr_add ?F (sizeof_Use * k)) = Some q0" "Val q = Val q0" by blast
    with q(2,3) show ?thesis unfolding Suc stepF[symmetric] stepT[symmetric] by simp
  qed
  from run w'(2) rl vals show ?case by blast
qed

lemma sizeof_ptr_pos [simp]: "0 < sizeof_ptr"
  by (simp add: sizeof_ptr_def)

lemma copy_BBs_frame_ex: "\<exists>B. copy_BBs From To n w = w\<lparr>bb_at := B\<rparr>"
proof (induction n arbitrary: From To w)
  case 0
  have "w = w\<lparr>bb_at := bb_at w\<rparr>" by simp
  then show ?case by (metis copy_BBs.simps(1))
next
  case (Suc n)
  let ?w = "w\<lparr>bb_at := (bb_at w)(To := bb_at w From)\<rparr>"
  from Suc.IH[of "ptr_add From sizeof_ptr" "ptr_add To sizeof_ptr" ?w] obtain B where
    "copy_BBs (ptr_add From sizeof_ptr) (ptr_add To sizeof_ptr) n ?w = ?w\<lparr>bb_at := B\<rparr>" by blast
  then have "copy_BBs From To (Suc n) w = w\<lparr>bb_at := B\<rparr>" by simp
  then show ?case by blast
qed

lemma copy_BBs_frame:
  "copy_BBs From To n w = w\<lparr>bb_at := bb_at (copy_BBs From To n w)\<rparr>"
proof -
  obtain B where B: "copy_BBs From To n w = w\<lparr>bb_at := B\<rparr>" using copy_BBs_frame_ex by blast
  show ?thesis unfolding B by simp
qed

lemma copy_BBs_untouched:
  "(\<forall>j<n. p \<noteq> ptr_add To (sizeof_ptr * j)) \<Longrightarrow> bb_at (copy_BBs From To n w) p = bb_at w p"
proof (induction n arbitrary: From To w)
  case 0
  show ?case by simp
next
  case (Suc n)
  have "p \<noteq> To" using Suc.prems[rule_format, of 0] by simp
  moreover have "\<forall>j<n. p \<noteq> ptr_add (ptr_add To sizeof_ptr) (sizeof_ptr * j)"
  proof (intro allI impI)
    fix j assume "j < n"
    then show "p \<noteq> ptr_add (ptr_add To sizeof_ptr) (sizeof_ptr * j)"
      using Suc.prems[rule_format, of "Suc j"] by simp
  qed
  ultimately show ?case using Suc.IH[of "ptr_add To sizeof_ptr"] by simp
qed

lemma copy_BBs_copied:
  "buffer From \<noteq> buffer To \<Longrightarrow> j < n \<Longrightarrow>
   bb_at (copy_BBs From To n w) (ptr_add To (sizeof_ptr * j)) = bb_at w (ptr_add From (sizeof_ptr * j))"
proof (induction n arbitrary: From To w j)
  case 0
  then show ?case by simp
next
  case (Suc n)
  let ?w = "w\<lparr>bb_at := (bb_at w)(To := bb_at w From)\<rparr>"
  have b: "buffer (ptr_add From sizeof_ptr) \<noteq> buffer (ptr_add To sizeof_ptr)"
    using Suc.prems(1) by (simp add: ptr_add_def)
  show ?case
  proof (cases j)
    case 0
    have "\<forall>j<n. To \<noteq> ptr_add (ptr_add To sizeof_ptr) (sizeof_ptr * j)" by simp
    from copy_BBs_untouched[OF this] show ?thesis using 0 by simp
  next
    case (Suc k)
    with Suc.prems have k: "k < n" by simp
    have "ptr_add From (sizeof_ptr * Suc k) \<noteq> To" using Suc.prems(1) by (auto simp: ptr_add_def)
    then show ?thesis using Suc.IH[OF b k, of ?w] unfolding Suc by simp
  qed
qed

lemma relinked_val:
  "relinked X w w' \<Longrightarrow> p \<notin> X \<Longrightarrow> map_option Val (use_at w' p) = map_option Val (use_at w p)"
  using relinked_rel[of X w w' p] by (cases "use_at w p"; cases "use_at w' p") simp_all

lemma use_array_buffer: "p \<in> use_array Begin n \<Longrightarrow> buffer p = buffer Begin"
  by (auto simp: use_array_iff ptr_add_def)

lemma use_array_mono: "m \<le> n \<Longrightarrow> use_array Begin m \<subseteq> use_array Begin n"
  by (auto simp: use_array_iff)

lemma getOperand_val:
  "getOperandList U w = Inr (Some Begin) \<Longrightarrow> use_at w (ptr_add Begin (sizeof_Use * i)) \<noteq> None \<Longrightarrow>
   map_option Val (use_at w (ptr_add Begin (sizeof_Use * i))) = Some V \<longleftrightarrow> getOperand U i w = Inr V"
  by (cases "use_at w (ptr_add Begin (sizeof_Use * i))") (auto simp: getOperand_eq)

lemma grow_effect:
  assumes R: "rep {} L w"
    and U: "user_at w U = Some Obj" "HasHungOffUses Obj"
    and S: "ptr_sub U sizeof_ptr = Inr Slot" "hungoff_at w Slot = Some (Some Old)"
    and live: "\<forall>i<NumUserOperands Obj. use_at w (ptr_add Old (sizeof_Use * i)) \<noteq> None"
    and oth: "\<forall>p r. buffer p = buffer Old \<and> p \<notin> use_array Old (NumUserOperands Obj)
               \<and> use_at w p = Some r \<longrightarrow> Val r = None"
    and buf: "offset Old = 0" "buffer Old \<in> heap_live w"
    and fresh: "heap_next w \<notin> heap_live w" "\<forall>p. buffer p = heap_next w \<longrightarrow> use_at w p = None"
    and grow: "NumUserOperands Obj < Nnew"
  shows "\<exists>w' L'. growHungoffUses U Nnew IsPhi w = Inr w' \<and> rep {} L' w'
      \<and> user_at w' = user_at w
      \<and> hungoff_at w' = (hungoff_at w)(Slot \<mapsto> Some (Ptr (heap_next w) 0))
      \<and> heap_live w' = insert (heap_next w) (heap_live w) - {buffer Old}
      \<and> (\<forall>i<NumUserOperands Obj.
            map_option Val (use_at w' (ptr_add (Ptr (heap_next w) 0) (sizeof_Use * i)))
              = map_option Val (use_at w (ptr_add Old (sizeof_Use * i))))
      \<and> (\<forall>i. NumUserOperands Obj \<le> i \<and> i < Nnew \<longrightarrow>
            map_option Val (use_at w' (ptr_add (Ptr (heap_next w) 0) (sizeof_Use * i))) = Some None)
      \<and> (\<forall>p \<in> use_array Old (NumUserOperands Obj). use_at w' p = None)
      \<and> (\<forall>p v. p \<notin> use_array Old (NumUserOperands Obj) \<and> p \<notin> use_array (Ptr (heap_next w) 0) Nnew \<longrightarrow>
            (map_option Val (use_at w' p) = Some (Some v))
              = (map_option Val (use_at w p) = Some (Some v)))
      \<and> (IsPhi \<longrightarrow> (\<forall>j<NumUserOperands Obj.
            bb_at w' (ptr_add (ptr_add (Ptr (heap_next w) 0) (sizeof_Use * Nnew)) (sizeof_ptr * j))
              = bb_at w (ptr_add (ptr_add Old (sizeof_Use * NumUserOperands Obj)) (sizeof_ptr * j))))"
proof -
  let ?n = "NumUserOperands Obj"
  define New where "New = Ptr (heap_next w) 0"
  let ?OA = "use_array Old ?n" and ?NA = "use_array New Nnew" and ?NC = "use_array New ?n"
  define ws where "ws = w\<lparr>heap_next := Suc (heap_next w),
     heap_live := insert (heap_next w) (heap_live w),
     hungoff_at := (hungoff_at w)(Slot \<mapsto> Some New)\<rparr>"
  define w1 where "w1 = ws\<lparr>use_at := (\<lambda>p. if p \<in> ?NA then Some (fresh_Use U) else use_at ws p),
     PrivateAllocatorData := (\<lambda>p. if p \<in> ?NA then None else PrivateAllocatorData ws p)\<rparr>"
  have bne: "buffer Old \<noteq> heap_next w" using buf(2) fresh(1) by auto
  have Nbuf: "buffer p = heap_next w" if "p \<in> ?NA" for p
    using use_array_buffer[OF that] by (simp add: New_def)
  have Obuf: "buffer p = buffer Old" if "p \<in> ?OA" for p using use_array_buffer[OF that] .
  have NCsub: "?NC \<subseteq> ?NA" using grow by (intro use_array_mono) simp
  have ON: "p \<notin> ?NA" if "p \<in> ?OA" for p using Obuf[OF that] Nbuf[of p] bne by auto
  \<comment> \<open>the new array\<close>
  have alloc: "allocHungoffUses U Nnew IsPhi w = Inr w1"
    using U S(1)
    by (simp add: allocHungoffUses_def get_user_def platform_new_def setOperandList_def
        construct_Uses_eq w1_def ws_def New_def cong: if_cong)
  have "rep {} L ws" using rep_cong[of ws w] R by (simp add: ws_def)
  moreover have "\<forall>p \<in> ?NA. \<forall>r. use_at ws p = Some r \<longrightarrow> Val r = None"
    using Nbuf fresh(2) by (simp add: ws_def)
  ultimately have "rep {} L (ws\<lparr>use_at := (\<lambda>p. if p \<in> ?NA then Some (fresh_Use U) else use_at ws p)\<rparr>)"
    by (rule construct_rep)
  then have R1: "rep {} L w1"
    by (rule rep_cong[THEN iffD2, rotated -1]) (simp_all add: w1_def)
  have u1: "use_at w1 p = (if p \<in> ?NA then Some (fresh_Use U) else use_at w p)" for p
    by (simp add: w1_def ws_def cong: if_cong)
  have f1: "user_at w1 = user_at w" "hungoff_at w1 = (hungoff_at w)(Slot \<mapsto> Some New)"
    "heap_live w1 = insert (heap_next w) (heap_live w)" "bb_at w1 = bb_at w"
    by (simp_all add: w1_def ws_def)
  have gl0: "getOperandList U w = Inr (Some Old)"
    using U S by (simp add: getOperandList_def get_user_def)
  have gl1: "getOperandList U w1 = Inr (Some New)"
    using U S(1) f1 by (simp add: getOperandList_def get_user_def)
  \<comment> \<open>the copy\<close>
  have inO: "ptr_add Old (sizeof_Use * i) \<in> ?OA" if "i < ?n" for i
    using that by (auto simp: use_array_iff)
  have inC: "ptr_add New (sizeof_Use * i) \<in> ?NC" if "i < ?n" for i
    using that by (auto simp: use_array_iff)
  have inN: "ptr_add New (sizeof_Use * i) \<in> ?NA" if "i < Nnew" for i
    using that by (auto simp: use_array_iff)
  have l1: "\<forall>i<?n. use_at w1 (ptr_add Old (sizeof_Use * i)) \<noteq> None"
    using live ON[OF inO] by (simp add: u1)
  have fr1: "\<forall>i<?n. \<exists>r. use_at w1 (ptr_add New (sizeof_Use * i)) = Some r \<and> Val r = None"
    using inC NCsub by (auto simp: u1 fresh_Use_def)
  have dj: "?OA \<inter> ?NC = {}" using ON NCsub by auto
  from copy_Uses_rep[OF R1 l1 fr1 dj] obtain w2 L2 where w2:
    "copy_Uses Old New ?n w1 = Inr w2" "rep {} L2 w2" "relinked ?NC w1 w2"
    "\<forall>i<?n. \<exists>r r'. use_at w1 (ptr_add Old (sizeof_Use * i)) = Some r
                  \<and> use_at w2 (ptr_add New (sizeof_Use * i)) = Some r' \<and> Val r' = Val r"
    by blast
  have e2: "w2 = w1\<lparr>use_at := use_at w2, UseList := UseList w2\<rparr>" using relinked_eq[OF w2(3)] .
  \<comment> \<open>the BasicBlock pointers\<close>
  define w3 where "w3 = (if IsPhi
                              then copy_BBs (ptr_add Old (sizeof_Use * ?n))
                                     (ptr_add New (sizeof_Use * Nnew)) ?n w2
                              else w2)"
  have e3: "w3 = w2\<lparr>bb_at := bb_at w3\<rparr>"
    unfolding w3_def using copy_BBs_frame by (cases IsPhi) simp_all
  have l3: "use_at w3 = use_at w2" "UseList w3 = UseList w2"
    by (subst e3, simp)+
  have R3: "rep {} L2 w3" using rep_cong[OF l3] w2(2) by simp
  \<comment> \<open>the old array\<close>
  have live3: "\<forall>i<?n. use_at w3 (ptr_add Old (sizeof_Use * i)) \<noteq> None"
  proof (intro allI impI)
    fix i assume i: "i < ?n"
    have "ptr_add Old (sizeof_Use * i) \<notin> ?NC" using ON[OF inO[OF i]] NCsub by auto
    then show "use_at w3 (ptr_add Old (sizeof_Use * i)) \<noteq> None"
      using relinked_None[OF w2(3), of "ptr_add Old (sizeof_Use * i)"] l1 i by (simp add: l3)
  qed
  from zap_loop_rep[OF R3 live3] obtain w4 where w4:
    "zap_loop Old (ptr_add Old (sizeof_Use * ?n)) w3 = Inr w4"
    "rep {} (\<lambda>v. filter (\<lambda>x. x \<notin> ?OA) (L2 v)) w4"
    "relinked ?OA w3 w4" "\<forall>p \<in> ?OA. use_at w4 p = None"
    by blast
  have e4: "w4 = w3\<lparr>use_at := use_at w4, UseList := UseList w4\<rparr>" using relinked_eq[OF w4(3)] .
  have hl4: "heap_live w4 = insert (heap_next w) (heap_live w)"
    by (subst e4, subst e3, subst e2) (simp add: f1)
  define w' where "w' = release {buffer Old} w4"
  have del: "platform_delete Old w4 = Inr w'"
    using buf hl4 by (simp add: platform_delete_def w'_def)
  have z: "zap_list (Some Old) ?n True w3 = Inr w'"
    using w4(1) del by (simp add: zap_list_def zap_def)
  have run: "growHungoffUses U Nnew IsPhi w = Inr w'"
    using U grow gl0 alloc gl1 w2(1) z
    by (simp add: growHungoffUses_def get_user_def Let_def w3_def)
  \<comment> \<open>the Values of the Uses\<close>
  have v4: "map_option Val (use_at w4 p) = map_option Val (use_at w2 p)" if "p \<notin> ?OA" for p
    using relinked_val[OF w4(3) that] by (simp add: l3)
  have v4w: "map_option Val (use_at w4 p) = map_option Val (use_at w p)"
    if "p \<notin> ?OA" "p \<notin> ?NA" for p
  proof -
    have "p \<notin> ?NC" using that NCsub by auto
    then show ?thesis using v4[OF that(1)] relinked_val[OF w2(3)] that by (simp add: u1)
  qed
  have gone: "Val r = None" if "buffer p = buffer Old" "use_at w4 p = Some r" for p r
  proof -
    have o: "p \<notin> ?OA" using w4(4) that(2) by auto
    have n: "p \<notin> ?NA" using Nbuf[of p] that(1) bne by auto
    from v4w[OF o n] that(2) obtain r0 where "use_at w p = Some r0" "Val r0 = Val r"
      by (cases "use_at w p") auto
    with oth that(1) o show ?thesis by force
  qed
  have l': "use_at w' p = (if buffer p = buffer Old then None else use_at w4 p)"
    "UseList w' = UseList w4" for p by (simp_all add: w'_def)
  have R': "rep {} (\<lambda>v. filter (\<lambda>x. x \<notin> ?OA) (L2 v)) w'"
    unfolding w'_def using w4(2) by (rule release_rep) (use gone in auto)
  have f': "user_at w' = user_at w" "hungoff_at w' = (hungoff_at w)(Slot \<mapsto> Some New)"
    "bb_at w' = bb_at w3"
    unfolding w'_def release_simps by (subst e4, subst e3, subst e2, simp add: f1)+
  have hl': "heap_live w' = insert (heap_next w) (heap_live w) - {buffer Old}"
    by (simp add: w'_def hl4)
  have v34: "map_option Val (use_at w' p) = map_option Val (use_at w2 p)"
    if "p \<notin> ?OA" "buffer p \<noteq> buffer Old" for p
    using v4[OF that(1)] that(2) by (simp add: l')
  have Nb: "buffer (ptr_add New (sizeof_Use * i)) \<noteq> buffer Old" for i
    using bne by (simp add: ptr_add_def New_def)
  have V1: "map_option Val (use_at w' (ptr_add New (sizeof_Use * i)))
              = map_option Val (use_at w (ptr_add Old (sizeof_Use * i)))" if i: "i < ?n" for i
  proof -
    have "ptr_add New (sizeof_Use * i) \<notin> ?OA" using ON inN[of i] i grow by auto
    from v34[OF this Nb] w2(4)[rule_format, OF i] show ?thesis
      using ON[OF inO[OF i]] by (auto simp: u1)
  qed
  have V2: "map_option Val (use_at w' (ptr_add New (sizeof_Use * i))) = Some None"
    if i: "?n \<le> i \<and> i < Nnew" for i
  proof -
    have a: "ptr_add New (sizeof_Use * i) \<in> ?NA" using inN i by simp
    then have "ptr_add New (sizeof_Use * i) \<notin> ?OA" using ON by auto
    moreover have "ptr_add New (sizeof_Use * i) \<notin> ?NC" using i by (auto simp: use_array_iff)
    ultimately show ?thesis
      using v34[OF _ Nb] relinked_val[OF w2(3)] a by (simp add: u1 fresh_Use_def)
  qed
  have V3: "\<forall>p \<in> ?OA. use_at w' p = None" using w4(4) by (simp add: l')
  have V4: "(map_option Val (use_at w' p) = Some (Some v))
              = (map_option Val (use_at w p) = Some (Some v))"
    if pp: "p \<notin> ?OA \<and> p \<notin> ?NA" for p v
  proof (cases "buffer p = buffer Old")
    case True
    have "map_option Val (use_at w p) \<noteq> Some (Some v)"
    proof
      assume "map_option Val (use_at w p) = Some (Some v)"
      then obtain r0 where "use_at w p = Some r0" "Val r0 = Some v" by auto
      with oth True pp show False by force
    qed
    then show ?thesis using True by (simp add: l')
  next
    case False
    then show ?thesis using v4w[of p] pp by (simp add: l')
  qed
  have BB: "bb_at w' (ptr_add (ptr_add New (sizeof_Use * Nnew)) (sizeof_ptr * j))
              = bb_at w (ptr_add (ptr_add Old (sizeof_Use * ?n)) (sizeof_ptr * j))"
    if "IsPhi" "j < ?n" for j
  proof -
    have "buffer (ptr_add Old (sizeof_Use * ?n)) \<noteq> buffer (ptr_add New (sizeof_Use * Nnew))"
      using bne by (simp add: ptr_add_def New_def)
    from copy_BBs_copied[OF this that(2), of w2] have
      "bb_at w3 (ptr_add (ptr_add New (sizeof_Use * Nnew)) (sizeof_ptr * j))
         = bb_at w2 (ptr_add (ptr_add Old (sizeof_Use * ?n)) (sizeof_ptr * j))"
      using that(1) by (simp add: w3_def)
    moreover have "bb_at w2 = bb_at w" by (subst e2) (simp add: f1)
    ultimately show ?thesis by (simp add: f')
  qed
  have "growHungoffUses U Nnew IsPhi w = Inr w' \<and> rep {} (\<lambda>v. filter (\<lambda>x. x \<notin> ?OA) (L2 v)) w'
      \<and> user_at w' = user_at w
      \<and> hungoff_at w' = (hungoff_at w)(Slot \<mapsto> Some New)
      \<and> heap_live w' = insert (heap_next w) (heap_live w) - {buffer Old}
      \<and> (\<forall>i<?n. map_option Val (use_at w' (ptr_add New (sizeof_Use * i)))
              = map_option Val (use_at w (ptr_add Old (sizeof_Use * i))))
      \<and> (\<forall>i. ?n \<le> i \<and> i < Nnew \<longrightarrow>
            map_option Val (use_at w' (ptr_add New (sizeof_Use * i))) = Some None)
      \<and> (\<forall>p \<in> ?OA. use_at w' p = None)
      \<and> (\<forall>p v. p \<notin> ?OA \<and> p \<notin> ?NA \<longrightarrow>
            (map_option Val (use_at w' p) = Some (Some v))
              = (map_option Val (use_at w p) = Some (Some v)))
      \<and> (IsPhi \<longrightarrow> (\<forall>j<?n.
            bb_at w' (ptr_add (ptr_add New (sizeof_Use * Nnew)) (sizeof_ptr * j))
              = bb_at w (ptr_add (ptr_add Old (sizeof_Use * ?n)) (sizeof_ptr * j))))"
  proof (intro conjI allI impI)
    show "growHungoffUses U Nnew IsPhi w = Inr w'" by (rule run)
    show "rep {} (\<lambda>v. filter (\<lambda>x. x \<notin> ?OA) (L2 v)) w'" by (rule R')
    show "user_at w' = user_at w" by (rule f'(1))
    show "hungoff_at w' = (hungoff_at w)(Slot \<mapsto> Some New)" by (rule f'(2))
    show "heap_live w' = insert (heap_next w) (heap_live w) - {buffer Old}" by (rule hl')
    show "\<forall>p \<in> ?OA. use_at w' p = None" by (rule V3)
  next
    fix i assume "i < ?n"
    then show "map_option Val (use_at w' (ptr_add New (sizeof_Use * i)))
              = map_option Val (use_at w (ptr_add Old (sizeof_Use * i)))" by (rule V1)
  next
    fix i assume "?n \<le> i \<and> i < Nnew"
    then show "map_option Val (use_at w' (ptr_add New (sizeof_Use * i))) = Some None" by (rule V2)
  next
    fix p v assume "p \<notin> ?OA \<and> p \<notin> ?NA"
    then show "(map_option Val (use_at w' p) = Some (Some v))
              = (map_option Val (use_at w p) = Some (Some v))" by (rule V4)
  next
    fix j assume "IsPhi" "j < ?n"
    then show "bb_at w' (ptr_add (ptr_add New (sizeof_Use * Nnew)) (sizeof_ptr * j))
              = bb_at w (ptr_add (ptr_add Old (sizeof_Use * ?n)) (sizeof_ptr * j))" by (rule BB)
  qed
  then show ?thesis unfolding New_def
    by (rule_tac x = w' in exI, rule_tac x = "\<lambda>v. filter (\<lambda>x. x \<notin> ?OA) (L2 v)" in exI)
qed

lemma rep_mem_iff:
  assumes "rep {} L w"
  shows "p \<in> set (L v) \<longleftrightarrow> map_option Val (use_at w p) = Some (Some v)"
  unfolding rep_set[OF assms] by (cases "use_at w p") auto


lemma hung_operands:
  "getOperand (Ptr 0 8) 0 hung_world = Inr (Some 1)"
  "getOperand (Ptr 0 8) (Suc 0) hung_world = Inr (Some 2)"
  "getOperand (Ptr 0 8) 0 hung_world = Inr (Some (Suc 0))"
  by (simp_all add: getOperand_def operand_use_def getOperandList_def get_user_def get_use_def
      hung_world_def ptr_sub_def ptr_add_def sizeof_Use_def sizeof_ptr_def)


lemma relinked_fields:
  assumes "relinked X w w1"
  shows "heap_live w1 = heap_live w" "heap_next w1 = heap_next w"
    "g_ThreadUserAllocatorTls w1 = g_ThreadUserAllocatorTls w"
    "PrivateAllocatorData w1 = PrivateAllocatorData w"
    "user_at w1 = user_at w" "hungoff_at w1 = hungoff_at w" "bb_at w1 = bb_at w"
    "SubclassID w1 = SubclassID w"
  by (subst relinked_eq[OF assms], simp)+

lemma relinked_releases: "relinked X w w1 \<Longrightarrow> releases p w1 = releases p w"
  by (simp add: releases_def relinked_fields split: option.splits)

lemma relinked_freeable: "relinked X w w1 \<Longrightarrow> freeable p w1 = freeable p w"
  by (simp add: freeable_def relinked_releases relinked_fields)

lemma GetBucketFor_length: "i < length (Buckets (GetBucketFor a i))"
  by (simp add: GetBucketFor_def)

lemma GetBucketFor_Blocks [simp]: "Blocks (GetBucketFor a i) = Blocks a"
  by (simp add: GetBucketFor_def)

lemma push_then_pop:
  "TryPopFree (b\<lparr>Buckets := (Buckets b)[t := \<lparr>FreeUsers = xs @ [p]\<rparr>]\<rparr>) t
     = (if t < length (Buckets b)
        then Some (p, b\<lparr>Buckets := (Buckets b)[t := \<lparr>FreeUsers = xs\<rparr>]\<rparr>) else None)"
  by (simp add: TryPopFree_def)

lemma UserFree_effect:
  assumes "freeable p w"
  shows "\<exists>w'. UserFree p w = Inr w' \<and> disposed p w w'
           \<and> UseList w' = UseList w \<and> user_at w' = user_at w \<and> hungoff_at w' = hungoff_at w
           \<and> heap_next w' = heap_next w
           \<and> use_at w' = use_at (if releases p w then release {buffer p} w else w)"
proof (cases "g_ThreadUserAllocatorTls w")
  case None
  then have r: "releases p w" by (simp add: releases_def)
  with assms have "offset p = 0" "buffer p \<in> heap_live w" by (simp_all add: freeable_def)
  then have "UserFree p w = Inr (release {buffer p} w)"
    using None by (simp add: UserFree_def platform_delete_def)
  then show ?thesis using r by (simp add: disposed_def)
next
  case (Some a)
  show ?thesis
  proof (cases "PrivateAllocatorData w p = Some InvalidBucket")
    case True
    then have r: "releases p w" using Some by (simp add: releases_def)
    with assms have "offset p = 0" "buffer p \<in> heap_live w" by (simp_all add: freeable_def)
    then have "UserFree p w = Inr ((release {buffer p} w)\<lparr>g_ThreadUserAllocatorTls := Some a\<rparr>)"
      using Some True by (simp add: UserFree_def Free_def GetPrivateData_def platform_delete_def)
    then show ?thesis using r Some by (simp add: disposed_def)
  next
    case False
    then have r: "\<not> releases p w" using Some by (simp add: releases_def)
    with assms obtain t where t: "PrivateAllocatorData w p = Some t" by (auto simp: freeable_def)
    with False have ti: "t \<noteq> InvalidBucket" by simp
    define b where "b = GetBucketFor a t"
    define a1 where "a1 = b\<lparr>Buckets := (Buckets b)[t := \<lparr>FreeUsers = FreeUsers (Buckets b ! t) @ [p]\<rparr>]\<rparr>"
    have f: "UserFree p w = Inr (w\<lparr>g_ThreadUserAllocatorTls := Some a1\<rparr>)"
      using Some t ti by (simp add: UserFree_def Free_def GetPrivateData_def Let_def a1_def b_def)
    have "TryPopFree a1 t
            = Some (p, b\<lparr>Buckets := (Buckets b)[t := \<lparr>FreeUsers = FreeUsers (Buckets b ! t)\<rparr>]\<rparr>)"
      unfolding a1_def push_then_pop using GetBucketFor_length[of t a] by (simp add: b_def)
    moreover have "Blocks a1 = Blocks a" by (simp add: a1_def b_def)
    ultimately have "disposed p w (w\<lparr>g_ThreadUserAllocatorTls := Some a1\<rparr>)"
      using r Some t unfolding disposed_def by auto
    with f r show ?thesis by simp
  qed
qed

lemma zapped_buffer_unlinked:
  assumes "others_unlinked Begin n w" "relinked (use_array Begin n) w w1"
    and "\<forall>p \<in> use_array Begin n. use_at w1 p = None"
  shows "\<forall>p r. buffer p \<in> {buffer Begin} \<and> use_at w1 p = Some r \<longrightarrow> Val r = None"
proof (intro allI impI)
  fix p r assume h: "buffer p \<in> {buffer Begin} \<and> use_at w1 p = Some r"
  then have o: "p \<notin> use_array Begin n" using assms(3) by auto
  from relinked_use_back[OF assms(2) o, of r] h
  obtain r0 where "use_at w p = Some r0" "Val r = Val r0" by auto
  with assms(1) h o show "Val r = None" unfolding others_unlinked_def by force
qed

lemma others_unlinked_0:
  "others_unlinked p 0 w \<longleftrightarrow> (\<forall>q r. buffer q = buffer p \<and> use_at w q = Some r \<longrightarrow> Val r = None)"
  by (simp add: others_unlinked_def)

lemma free_rep:
  assumes "rep {} L w" "freeable p w"
    and "releases p w \<longrightarrow> (\<forall>q r. buffer q = buffer p \<and> use_at w q = Some r \<longrightarrow> Val r = None)"
  shows "\<exists>w'. UserFree p w = Inr w' \<and> disposed p w w' \<and> rep {} L w'
           \<and> user_at w' = user_at w \<and> hungoff_at w' = hungoff_at w \<and> heap_next w' = heap_next w
           \<and> (\<forall>q. use_at w q = None \<longrightarrow> use_at w' q = None)"
proof -
  from UserFree_effect[OF assms(2)] obtain w' where w': "UserFree p w = Inr w'" "disposed p w w'"
    "UseList w' = UseList w" "user_at w' = user_at w" "hungoff_at w' = hungoff_at w"
    "heap_next w' = heap_next w"
    "use_at w' = use_at (if releases p w then release {buffer p} w else w)" by blast
  have "rep {} L (if releases p w then release {buffer p} w else w)"
    using assms(1,3) by (auto intro!: release_rep)
  then have "rep {} L w'" by (rule rep_cong[THEN iffD2, rotated -1]) (simp_all add: w'(3,7))
  moreover have "use_at w' q = None" if "use_at w q = None" for q using that by (simp add: w'(7))
  ultimately show ?thesis using w' by blast
qed

lemma destroy_inline:
  assumes "rep {} L w"
    and "\<forall>i<n. use_at w (ptr_add Storage (sizeof_Use * i)) \<noteq> None"
    and "freeable Storage w" "releases Storage w \<longrightarrow> others_unlinked Storage n w"
  shows "\<exists>w1 w'. zap Storage (ptr_add Storage (sizeof_Use * n)) False w = Inr w1
           \<and> heap_live w1 = heap_live w
           \<and> g_ThreadUserAllocatorTls w1 = g_ThreadUserAllocatorTls w
           \<and> PrivateAllocatorData w1 = PrivateAllocatorData w
           \<and> relinked (use_array Storage n) w w1
           \<and> UserFree Storage w1 = Inr w' \<and> disposed Storage w1 w'
           \<and> unlinked_all L (use_array Storage n) w'"
proof -
  let ?A = "use_array Storage n"
  obtain w1 where w1: "zap_loop Storage (ptr_add Storage (sizeof_Use * n)) w = Inr w1"
    "rep {} (\<lambda>v. filter (\<lambda>x. x \<notin> ?A) (L v)) w1"
    "relinked ?A w w1" "\<forall>p \<in> ?A. use_at w1 p = None"
    using zap_loop_rep[OF assms(1,2)] by blast
  have z: "zap Storage (ptr_add Storage (sizeof_Use * n)) False w = Inr w1"
    using w1(1) by (simp add: zap_def)
  have fr: "freeable Storage w1" using assms(3) relinked_freeable[OF w1(3)] by simp
  have un: "releases Storage w1 \<longrightarrow>
      (\<forall>q r. buffer q = buffer Storage \<and> use_at w1 q = Some r \<longrightarrow> Val r = None)"
    using zapped_buffer_unlinked[OF _ w1(3,4)] assms(4) relinked_releases[OF w1(3)] by auto
  from free_rep[OF w1(2) fr un] obtain w' where w': "UserFree Storage w1 = Inr w'"
    "disposed Storage w1 w'" "rep {} (\<lambda>v. filter (\<lambda>x. x \<notin> ?A) (L v)) w'"
    "\<forall>q. use_at w1 q = None \<longrightarrow> use_at w' q = None" by blast
  have "unlinked_all L ?A w'" using w'(3) by (rule unlinked_allI) (use w1(4) w'(4) in auto)
  with z w1(3) w'(1,2) relinked_fields(1,3,4)[OF w1(3)] show ?thesis by blast
qed

lemma destroy_hungoff:
  assumes "rep {} L w"
    and "\<forall>i<n. use_at w (ptr_add Begin (sizeof_Use * i)) \<noteq> None"
    and "offset Begin = 0" "buffer Begin \<in> heap_live w" "others_unlinked Begin n w"
    and "freeable Slot w"
    and "releases Slot w \<longrightarrow> buffer Slot \<noteq> buffer Begin \<and> others_unlinked Slot 0 w"
  shows "\<exists>w1 w'. zap Begin (ptr_add Begin (sizeof_Use * n)) True w = Inr w1
           \<and> heap_live w1 = heap_live w - {buffer Begin}
           \<and> g_ThreadUserAllocatorTls w1 = g_ThreadUserAllocatorTls w
           \<and> PrivateAllocatorData w1 = PrivateAllocatorData w
           \<and> UserFree Slot w1 = Inr w' \<and> disposed Slot w1 w'
           \<and> unlinked_all L (use_array Begin n) w'"
proof -
  let ?A = "use_array Begin n"
  obtain w0 where w0: "zap_loop Begin (ptr_add Begin (sizeof_Use * n)) w = Inr w0"
    "rep {} (\<lambda>v. filter (\<lambda>x. x \<notin> ?A) (L v)) w0"
    "relinked ?A w w0" "\<forall>p \<in> ?A. use_at w0 p = None"
    using zap_loop_rep[OF assms(1,2)] by blast
  note f0 = relinked_fields[OF w0(3)]
  define w1 where "w1 = release {buffer Begin} w0"
  have d: "platform_delete Begin w0 = Inr w1"
    using assms(3,4) by (simp add: platform_delete_def w1_def f0)
  have z: "zap Begin (ptr_add Begin (sizeof_Use * n)) True w = Inr w1"
    using w0(1) d by (simp add: zap_def)
  have hl: "heap_live w1 = heap_live w - {buffer Begin}" by (simp add: w1_def f0)
  have R1: "rep {} (\<lambda>v. filter (\<lambda>x. x \<notin> ?A) (L v)) w1"
    unfolding w1_def using w0(2) zapped_buffer_unlinked[OF assms(5) w0(3,4)] by (rule release_rep)
  have rl: "releases Slot w1 = releases Slot w"
    by (simp add: releases_def w1_def f0 split: option.splits)
  have fr: "freeable Slot w1"
    using assms(6,7) unfolding freeable_def rl by (auto simp: w1_def f0)
  have un: "releases Slot w1 \<longrightarrow>
      (\<forall>q r. buffer q = buffer Slot \<and> use_at w1 q = Some r \<longrightarrow> Val r = None)"
  proof (intro impI allI)
    fix q r assume a: "releases Slot w1" and b: "buffer q = buffer Slot \<and> use_at w1 q = Some r"
    then have q0: "use_at w0 q = Some r" by (simp add: w1_def split: if_splits)
    then have o: "q \<notin> ?A" using w0(4) by auto
    from relinked_use_back[OF w0(3) o q0] obtain r0 where "use_at w q = Some r0" "Val r = Val r0"
      by auto
    moreover have "others_unlinked Slot 0 w" using a assms(7) rl by simp
    ultimately show "Val r = None" using b unfolding others_unlinked_0 by force
  qed
  from free_rep[OF R1 fr un] obtain w' where w': "UserFree Slot w1 = Inr w'"
    "disposed Slot w1 w'" "rep {} (\<lambda>v. filter (\<lambda>x. x \<notin> ?A) (L v)) w'"
    "\<forall>q. use_at w1 q = None \<longrightarrow> use_at w' q = None" by blast
  have "\<forall>p \<in> ?A. use_at w1 p = None" using w0(4) by (simp add: w1_def)
  with w'(4) have "\<forall>p \<in> ?A. use_at w' p = None" by auto
  with w'(3) have "unlinked_all L ?A w'" by (rule unlinked_allI)
  moreover have "g_ThreadUserAllocatorTls w1 = g_ThreadUserAllocatorTls w"
    "PrivateAllocatorData w1 = PrivateAllocatorData w" by (simp_all add: w1_def f0)
  ultimately show ?thesis using z hl w'(1,2) by blast
qed



lemma empty_rep:
  assumes "use_at w = Map.empty" "UseList w = (\<lambda>_. None)"
  shows "rep {} (\<lambda>_. []) w"
  using assms by (simp add: rep_def use_list_def)

lemma arena_user_run:
  "bind (UserThreadAlloc_ctor world0) (operator_new 8 0) = Inr (Ptr 0 0, arena_user_world)"
proof -
  have f8: "GetFreeBucketIndex 8 = Inr 3" using GetFreeBucketIndex_small[of 8] by (simp add: msb_index_8)
  have i8: "GetReuseBucketIndex 8 = Inr 3" using GetReuseBucketIndex_range[of 3 8] by simp
  show ?thesis
    by (simp add: UserThreadAlloc_ctor_def operator_new_def NumUserOperandsBits_def
        UserAlloc_def Allocate_def LargeAllocationThreshold_def carve_def
        GetFirstBlockFor_def new_UserBlockAllocator_def platform_new_def world0_def Let_def
        ptr_add_def i8 f8 AllocationBits_def TryPopFree_def SetPrivateData_def
        arena_user_world_def arena_world_def)
qed

lemma hung_null_run: "operator_new_hungoff 64 world0 = Inr (Ptr 0 8, hung_null_world)"
  by (simp add: operator_new_hungoff_def UserAlloc_def platform_new_def world0_def Let_def
      ptr_add_def sizeof_ptr_def hung_null_world_def)


lemma release_user_at [simp]:
  "release B (w\<lparr>user_at := m\<rparr>) = (release B w)\<lparr>user_at := m\<rparr>"
  by (rule world.equality) (auto simp: release_def fun_eq_iff)

lemma UserFree_user_at:
  "UserFree p (w\<lparr>user_at := m\<rparr>) = map_sum id (\<lambda>x. x\<lparr>user_at := m\<rparr>) (UserFree p w)"
  by (auto simp: UserFree_def Free_def GetPrivateData_def platform_delete_def Let_def
      split: option.splits)

lemma operator_delete2_user_at:
  "operator_delete2 Usr n (w\<lparr>user_at := m\<rparr>)
     = map_sum id (\<lambda>x. x\<lparr>user_at := m\<rparr>) (operator_delete2 Usr n w)"
proof (cases "ptr_sub Usr (sizeof_Use * n)")
  case (Inl e)
  then show ?thesis by (simp add: operator_delete2_def)
next
  case (Inr Storage)
  show ?thesis
  proof (cases "zap_loop Storage (ptr_add Storage (sizeof_Use * n)) w")
    case (Inl e)
    with Inr show ?thesis by (simp add: operator_delete2_def zap_def zap_loop_user_at)
  next
    case w1: (Inr w1)
    with Inr show ?thesis
      by (simp add: operator_delete2_def zap_def zap_loop_user_at UserFree_user_at)
  qed
qed

lemma modify_use_frame:
  assumes "modify_use u f w = Inr w'" "\<And>r. Val (f r) = Val r"
  shows "heap_live w' = heap_live w \<and> (\<forall>p. map_option Val (use_at w' p) = map_option Val (use_at w p))"
  using assms by (auto simp: modify_use_def split: option.splits)

lemma write_slot_frame:
  assumes "write_slot s x w = Inr w'"
  shows "heap_live w' = heap_live w \<and> (\<forall>p. map_option Val (use_at w' p) = map_option Val (use_at w p))"
proof (cases s)
  case (UseListOf v)
  with assms show ?thesis by (auto simp: write_slot_def)
next
  case (NextOf u)
  with assms have "modify_use u (\<lambda>r. r\<lparr>Next := x\<rparr>) w = Inr w'" by (simp add: write_slot_def)
  then show ?thesis by (rule modify_use_frame) simp
qed

lemma setPrev_frame:
  assumes "setPrev u s w = Inr w'"
  shows "heap_live w' = heap_live w \<and> (\<forall>p. map_option Val (use_at w' p) = map_option Val (use_at w p))"
  using assms unfolding setPrev_def by (rule modify_use_frame) simp

lemma removeFromList_frame:
  assumes "removeFromList u w = Inr w'"
  shows "heap_live w' = heap_live w \<and> (\<forall>p. map_option Val (use_at w' p) = map_option Val (use_at w p))"
proof -
  from assms obtain r :: Use where r: "use_at w u = Some r"
    by (cases "use_at w u") (simp_all add: removeFromList_def get_use_def)
  from assms r obtain sp where sp: "Prev r = Some sp"
    by (cases "Prev r") (simp_all add: removeFromList_def get_use_def)
  from assms r sp obtain w1 where w1: "write_slot sp (Next r) w = Inr w1"
    by (cases "write_slot sp (Next r) w") (simp_all add: removeFromList_def get_use_def)
  from assms r sp w1 obtain r1 :: Use where r1: "use_at w1 u = Some r1"
    by (cases "use_at w1 u") (simp_all add: removeFromList_def get_use_def)
  from assms r sp w1 r1
  have "(case Next r1 of None \<Rightarrow> Inr w1 | Some m \<Rightarrow> setPrev m sp w1) = Inr w'"
    by (simp add: removeFromList_def get_use_def)
  note a = sp w1 this
  note f1 = write_slot_frame[OF a(2)]
  show ?thesis
  proof (cases "Next r1")
    case None
    with a(3) f1 show ?thesis by simp
  next
    case (Some m)
    with a(3) have "setPrev m sp w1 = Inr w'" by simp
    from setPrev_frame[OF this] f1 show ?thesis by simp
  qed
qed

lemma Use_dtor_frame:
  assumes "Use_dtor u w = Inr w'"
  shows "heap_live w' = heap_live w
       \<and> (\<forall>p. p \<noteq> u \<longrightarrow> map_option Val (use_at w' p) = map_option Val (use_at w p))"
proof -
  from assms obtain r :: Use and w1 where a:
    "(if Val r \<noteq> None then removeFromList u w else Inr w) = Inr w1"
    "w' = w1\<lparr>use_at := (use_at w1)(u := None)\<rparr>"
    by (auto simp: Use_dtor_def bind_eq_Inr)
  have "heap_live w1 = heap_live w \<and> (\<forall>p. map_option Val (use_at w1 p) = map_option Val (use_at w p))"
    using a(1) removeFromList_frame[of u w w1] by (cases "Val r \<noteq> None") auto
  then show ?thesis by (simp add: a(2))
qed

lemma ptr_sub_buffer: "ptr_sub p n = Inr q \<Longrightarrow> buffer q = buffer p"
  by (auto simp: ptr_sub_def split: if_splits)

lemma zap_loop_frame:
  "zap_loop Start Stop w = Inr w' \<Longrightarrow>
   heap_live w' = heap_live w
   \<and> (\<forall>p. buffer p \<noteq> buffer Stop \<longrightarrow> map_option Val (use_at w' p) = map_option Val (use_at w p))"
proof (induction Start Stop w rule: zap_loop.induct)
  case (1 Start Stop w)
  show ?case
  proof (cases "Start = Stop")
    case True
    with "1.prems" show ?thesis by (simp add: zap_loop.simps)
  next
    case False
    with "1.prems" obtain Stop' w1 where s: "ptr_sub Stop sizeof_Use = Inr Stop'"
      "Use_dtor Stop' w = Inr w1" "zap_loop Start Stop' w1 = Inr w'"
      by (subst (asm) zap_loop.simps) (auto split: sum.splits)
    note b = ptr_sub_buffer[OF s(1)]
    from "1.IH"[OF False s(1,2,3)] Use_dtor_frame[OF s(2)] b show ?thesis by auto
  qed
qed

lemma UserFree_frame:
  assumes "UserFree q w = Inr w'"
  shows "(\<forall>b. b \<noteq> buffer q \<longrightarrow> (b \<in> heap_live w') = (b \<in> heap_live w))
       \<and> (\<forall>p. buffer p \<noteq> buffer q \<longrightarrow> use_at w' p = use_at w p)"
  using assms
  by (auto simp: UserFree_def Free_def GetPrivateData_def platform_delete_def Let_def bind_eq_Inr
      split: option.splits if_splits)

lemma operator_delete2_frame:
  assumes "operator_delete2 Usr n w = Inr w'"
  shows "(\<forall>b. b \<noteq> buffer Usr \<longrightarrow> (b \<in> heap_live w') = (b \<in> heap_live w))
       \<and> (\<forall>p. buffer p \<noteq> buffer Usr \<longrightarrow> map_option Val (use_at w' p) = map_option Val (use_at w p))"
proof -
  from assms obtain Storage w1 where a: "ptr_sub Usr (sizeof_Use * n) = Inr Storage"
    "zap_loop Storage (ptr_add Storage (sizeof_Use * n)) w = Inr w1" "UserFree Storage w1 = Inr w'"
    by (auto simp: operator_delete2_def zap_def bind_eq_Inr)
  have b: "buffer Storage = buffer Usr" using a(1) by (rule ptr_sub_buffer)
  have "buffer (ptr_add Storage (sizeof_Use * n)) = buffer Usr" using b by (simp add: ptr_add_def)
  with zap_loop_frame[OF a(2)] UserFree_frame[OF a(3)] b show ?thesis by simp
qed

lemma sizeof_differ: "sizeof_Use * n \<noteq> sizeof_ptr"
proof
  assume "sizeof_Use * n = sizeof_ptr"
  then have "32 * n = (8::nat)" by (simp add: sizeof_Use_def sizeof_ptr_def)
  then show False by presburger
qed

lemma ptr_sub_differ:
  assumes "ptr_sub Usr sizeof_ptr = Inr Slot"
  shows "ptr_sub Usr (sizeof_Use * n) \<noteq> Inr Slot"
proof
  assume "ptr_sub Usr (sizeof_Use * n) = Inr Slot"
  with assms have "ptr_add Slot (sizeof_Use * n) = ptr_add Slot sizeof_ptr"
    using ptr_sub_Inr by metis
  then show False using sizeof_differ by simp
qed

lemma operator_delete2_hungoff_fails:
  assumes "g_ThreadUserAllocatorTls w = None" "ptr_sub Usr sizeof_ptr = Inr Slot" "offset Slot = 0"
  shows "\<exists>e. operator_delete2 Usr n w = Inl e"
proof -
  have o: "offset Usr = sizeof_ptr" using ptr_sub_Inr[OF assms(2)] assms(3) by (simp add: ptr_add_def)
  show ?thesis
  proof (cases n)
    case 0
    have "platform_delete Usr w = Inl InvalidFree" using o by (simp add: platform_delete_def)
    then show ?thesis using 0 assms(1)
      by (simp add: operator_delete2_def ptr_sub_def zap_def zap_loop.simps UserFree_def)
  next
    case (Suc k)
    then have "offset Usr < sizeof_Use * n" using o by (simp add: sizeof_Use_def sizeof_ptr_def)
    then show ?thesis by (simp add: operator_delete2_def ptr_sub_def)
  qed
qed



lemma hung_delete_succeeds: "\<not> isl (operator_delete (Ptr 0 8) hung_world)"
proof -
  have rl: "releases (Ptr 0 0) hung_world" by (simp add: releases_def hung_world_def world0_def)
  have l: "\<forall>i<2. use_at hung_world (ptr_add (Ptr 1 0) (sizeof_Use * i)) \<noteq> None"
  proof (intro allI impI)
    fix i :: nat assume "i < 2"
    then have "i = 0 \<or> i = 1" by auto
    then show "use_at hung_world (ptr_add (Ptr 1 0) (sizeof_Use * i)) \<noteq> None"
      by (auto simp: hung_world_def ptr_add_def sizeof_Use_def)
  qed
  have o1: "others_unlinked (Ptr 1 0) 2 hung_world"
    by (auto simp: others_unlinked_def hung_world_def use_array_2 ptr_add_def sizeof_Use_def
        split: if_splits)
  have o0: "releases (Ptr 0 0) hung_world \<longrightarrow>
      buffer (Ptr 0 0) \<noteq> buffer (Ptr 1 0) \<and> others_unlinked (Ptr 0 0) 0 hung_world"
    by (auto simp: others_unlinked_def hung_world_def split: if_splits)
  have fr: "freeable (Ptr 0 0) hung_world" using rl by (simp add: freeable_def hung_world_def)
  have b: "offset (Ptr 1 0) = 0" "buffer (Ptr 1 0) \<in> heap_live hung_world"
    by (simp_all add: hung_world_def)
  from destroy_hungoff[OF hung_rep l b o1 fr o0]
  obtain w1 w' where "zap (Ptr 1 0) (ptr_add (Ptr 1 0) (sizeof_Use * 2)) True hung_world = Inr w1"
    "UserFree (Ptr 0 0) w1 = Inr w'" by blast
  then have "operator_delete (Ptr 0 8) hung_world = Inr w'"
    by (simp add: operator_delete_def get_user_def zap_list_def hung_world_def ptr_sub_def
        sizeof_ptr_def)
  then show ?thesis by simp
qed


section \<open>The use-list invariant in reachable states\<close>

lemma use_lists_okI: "rep {} L w \<Longrightarrow> use_lists_ok w"
  unfolding use_lists_ok_def by blast

lemma use_lists_ok_cong:
  "use_at w' = use_at w \<Longrightarrow> UseList w' = UseList w \<Longrightarrow> use_lists_ok w \<Longrightarrow> use_lists_ok w'"
  unfolding use_lists_ok_def using rep_cong by blast

lemma consistentI: "rep {} L w \<Longrightarrow> heap_ok w \<Longrightarrow> consistent w"
  unfolding consistent_def by (blast intro: use_lists_okI)

lemma consistent_heap: "consistent w \<Longrightarrow> heap_ok w"
  by (simp add: consistent_def)

lemma heap_ok_relinked:
  assumes "heap_ok w" "relinked X w w'" "\<forall>x \<in> X. use_at w' x \<noteq> None \<longrightarrow> use_at w x \<noteq> None"
  shows "heap_ok w'"
proof -
  have "use_at w x \<noteq> None" if "use_at w' x \<noteq> None" for x
    using that assms(3) relinked_None[OF assms(2), of x] by (cases "x \<in> X") auto
  then show ?thesis using assms(1) unfolding heap_ok_def relinked_fields[OF assms(2)] by blast
qed

lemma heap_ok_cong:
  assumes "heap_ok w" "use_at w' = use_at w" "heap_live w' = heap_live w"
    "heap_next w' = heap_next w" "hungoff_at w' = hungoff_at w"
  shows "heap_ok w'"
  using assms by (simp add: heap_ok_def)

lemma consistent_cong:
  assumes "consistent w" "use_at w' = use_at w" "UseList w' = UseList w"
    "heap_live w' = heap_live w" "heap_next w' = heap_next w" "hungoff_at w' = hungoff_at w"
  shows "consistent w'"
  using assms use_lists_ok_cong[of w' w] heap_ok_cong[of w w'] by (simp add: consistent_def)

lemma Use_set_step:
  assumes "consistent w" "Use_set u V w = Inr w'"
  shows "consistent w' \<and> relinked {u} w w'"
proof -
  obtain L where L: "rep {} L w" using assms(1) unfolding consistent_def use_lists_ok_def by blast
  obtain r where r: "use_at w u = Some r"
    using assms(2) by (cases "use_at w u") (simp_all add: Use_set_def get_use_def)
  from Use_set_rep[OF L r, of V] assms(2) obtain L' where w': "rep {} L' w'" "relinked {u} w w'"
    by auto
  have "heap_ok w'" using consistent_heap[OF assms(1)] w'(2) by (rule heap_ok_relinked) (simp add: r)
  with w' show ?thesis by (blast intro: consistentI)
qed

lemma Use_swap_step:
  assumes "consistent w" "Use_swap a b w = Inr w'"
  shows "consistent w'"
proof -
  obtain L where L: "rep {} L w" using assms(1) unfolding consistent_def use_lists_ok_def by blast
  obtain ra where ra: "use_at w a = Some ra"
    using assms(2) by (cases "use_at w a") (simp_all add: Use_swap_def get_use_def)
  obtain rb where rb: "use_at w b = Some rb"
    using assms(2) ra by (cases "use_at w b") (simp_all add: Use_swap_def get_use_def)
  show ?thesis
  proof (cases "Val ra = Val rb")
    case True
    with Use_swap_same[OF ra rb] assms show ?thesis by simp
  next
    case False
    from Use_swap_rep[OF L ra rb False] assms(2) obtain L' where w': "rep {} L' w'"
      "relinked {a, b} w w'" by auto
    have "heap_ok w'" using consistent_heap[OF assms(1)] w'(2)
      by (rule heap_ok_relinked) (auto simp: ra rb)
    with w' show ?thesis by (blast intro: consistentI)
  qed
qed

lemma Use_dtor_step:
  assumes "consistent w" "Use_dtor u w = Inr w'"
  shows "consistent w' \<and> relinked {u} w w' \<and> use_at w' u = None"
proof -
  obtain L where L: "rep {} L w" using assms(1) unfolding consistent_def use_lists_ok_def by blast
  obtain r where r: "use_at w u = Some r"
    using assms(2) by (cases "use_at w u") (simp_all add: Use_dtor_def get_use_def)
  from Use_dtor_rep[OF L r] assms(2) obtain L' where w': "rep {} L' w'" "relinked {u} w w'"
    "use_at w' u = None" by auto
  have "heap_ok w'" using consistent_heap[OF assms(1)] w'(2) by (rule heap_ok_relinked) (simp add: r)
  with w' show ?thesis by (blast intro: consistentI)
qed

text \<open>
  After \<open>zap_loop\<close>: the world is consistent, only links differ, a Use that is alive
  was alive before with the same Value, and a Use that was not alive is not alive.
\<close>

lemma zap_loop_step:
  "consistent w \<Longrightarrow> zap_loop Start Stop w = Inr w' \<Longrightarrow>
   consistent w' \<and> relinked UNIV w w'
   \<and> (\<forall>p r'. use_at w' p = Some r' \<longrightarrow> (\<exists>r. use_at w p = Some r \<and> Val r = Val r'))"
proof (induction Start Stop w rule: zap_loop.induct)
  case (1 Start Stop w)
  show ?case
  proof (cases "Start = Stop")
    case True
    with "1.prems" show ?thesis by (simp add: zap_loop.simps relinked_refl)
  next
    case False
    with "1.prems"(2) obtain Stop' w1 where s: "ptr_sub Stop sizeof_Use = Inr Stop'"
      "Use_dtor Stop' w = Inr w1" "zap_loop Start Stop' w1 = Inr w'"
      by (subst (asm) zap_loop.simps) (auto split: sum.splits)
    from Use_dtor_step[OF "1.prems"(1) s(2)] have d: "consistent w1" "relinked {Stop'} w w1"
      "use_at w1 Stop' = None" by simp_all
    from "1.IH"[OF False s(1,2) d(1) s(3)] have i: "consistent w'" "relinked UNIV w1 w'"
      "\<forall>p r'. use_at w' p = Some r' \<longrightarrow> (\<exists>r. use_at w1 p = Some r \<and> Val r = Val r')" by simp_all
    have "relinked UNIV w w'" using relinked_trans[OF d(2) i(2)] by simp
    moreover have "\<exists>r. use_at w p = Some r \<and> Val r = Val r'" if "use_at w' p = Some r'" for p r'
    proof -
      from i(3) that obtain r1 where r1: "use_at w1 p = Some r1" "Val r1 = Val r'" by blast
      with d(3) have "p \<notin> {Stop'}" by auto
      from relinked_use_back[OF d(2) this r1(1)] r1(2) show ?thesis by auto
    qed
    ultimately show ?thesis using i(1) by blast
  qed
qed

lemma zap_loop_dead:
  "consistent w \<Longrightarrow> zap_loop Start (ptr_add Start (sizeof_Use * k)) w = Inr w' \<Longrightarrow>
   \<forall>p \<in> use_array Start k. use_at w' p = None"
proof (induction k arbitrary: w)
  case 0
  then show ?case by simp
next
  case (Suc k)
  have ne: "Start \<noteq> ptr_add Start (sizeof_Use * Suc k)" by simp
  from Suc.prems(2) obtain w1 where s: "Use_dtor (ptr_add Start (sizeof_Use * k)) w = Inr w1"
    "zap_loop Start (ptr_add Start (sizeof_Use * k)) w1 = Inr w'"
    by (subst (asm) zap_loop.simps) (auto simp: ne ptr_sub_add_step split: sum.splits simp del: mult_Suc_right)
  from Use_dtor_step[OF Suc.prems(1) s(1)] have d: "consistent w1"
    "use_at w1 (ptr_add Start (sizeof_Use * k)) = None" by simp_all
  from zap_loop_step[OF d(1) s(2)]
  have bk: "\<forall>p r'. use_at w' p = Some r' \<longrightarrow> (\<exists>r. use_at w1 p = Some r \<and> Val r = Val r')"
    by simp
  have "use_at w' (ptr_add Start (sizeof_Use * k)) = None"
  proof (cases "use_at w' (ptr_add Start (sizeof_Use * k))")
    case None
    then show ?thesis .
  next
    case (Some a)
    with bk obtain r where "use_at w1 (ptr_add Start (sizeof_Use * k)) = Some r" by blast
    with d(2) show ?thesis by simp
  qed
  with Suc.IH[OF d(1) s(2)] show ?case by (simp add: use_array_Suc_last)
qed

lemma release_consistent:
  assumes "consistent w" "\<forall>p r. buffer p \<in> B \<and> use_at w p = Some r \<longrightarrow> Val r = None"
  shows "consistent (release B w)"
proof -
  obtain L where L: "rep {} L w" using assms(1) unfolding consistent_def use_lists_ok_def by blast
  have "rep {} L (release B w)" using L assms(2) by (rule release_rep)
  moreover have "heap_ok (release B w)"
    using consistent_heap[OF assms(1)] by (auto simp: heap_ok_def split: if_splits)
  ultimately show ?thesis by (rule consistentI)
qed

lemma UserFree_freeable: "UserFree p w = Inr w' \<Longrightarrow> freeable p w"
  by (auto simp: UserFree_def Free_def GetPrivateData_def platform_delete_def Let_def bind_eq_Inr
      freeable_def releases_def split: option.splits if_splits)

lemma UserFree_step:
  assumes "consistent w" "UserFree p w = Inr w'"
    and "releases p w \<longrightarrow> (\<forall>q r. buffer q = buffer p \<and> use_at w q = Some r \<longrightarrow> Val r = None)"
  shows "consistent w'"
proof -
  from UserFree_effect[OF UserFree_freeable[OF assms(2)]] assms(2)
  have w': "disposed p w w'" "UseList w' = UseList w" "hungoff_at w' = hungoff_at w"
    "heap_next w' = heap_next w"
    "use_at w' = use_at (if releases p w then release {buffer p} w else w)" by auto
  show ?thesis
  proof (cases "releases p w")
    case True
    have "consistent (release {buffer p} w)"
      using assms(1) by (rule release_consistent) (use assms(3) True in auto)
    moreover have "heap_live w' = heap_live (release {buffer p} w)"
      using w'(1) True by (simp add: disposed_def)
    ultimately show ?thesis using w' True by (intro consistent_cong[of "release {buffer p} w" w']) simp_all
  next
    case False
    then have "heap_live w' = heap_live w" using w'(1) by (simp add: disposed_def)
    then show ?thesis using w' False assms(1) by (intro consistent_cong[of w w']) simp_all
  qed
qed

lemma zap_step:
  assumes "consistent w" "zap Start Stop del w = Inr w'"
    and "del \<longrightarrow> (\<exists>k. Stop = ptr_add Start (sizeof_Use * k) \<and> others_unlinked Start k w)"
  shows "consistent w'
       \<and> g_ThreadUserAllocatorTls w' = g_ThreadUserAllocatorTls w
       \<and> PrivateAllocatorData w' = PrivateAllocatorData w
       \<and> (\<forall>p r'. use_at w' p = Some r' \<longrightarrow> (\<exists>r. use_at w p = Some r \<and> Val r = Val r'))"
proof -
  from assms(2) obtain w1 where w1: "zap_loop Start Stop w = Inr w1"
    "(if del then platform_delete Start w1 else Inr w1) = Inr w'"
    by (auto simp: zap_def bind_eq_Inr)
  from zap_loop_step[OF assms(1) w1(1)] have s: "consistent w1" "relinked UNIV w w1"
    "\<forall>p r'. use_at w1 p = Some r' \<longrightarrow> (\<exists>r. use_at w p = Some r \<and> Val r = Val r')" by simp_all
  note f = relinked_fields[OF s(2)]
  show ?thesis
  proof (cases del)
    case False
    with w1(2) s f show ?thesis by simp
  next
    case True
    with assms(3) obtain k where k: "Stop = ptr_add Start (sizeof_Use * k)"
      "others_unlinked Start k w" by blast
    from True w1(2) have w': "w' = release {buffer Start} w1"
      by (auto simp: platform_delete_def split: if_splits)
    have dead: "\<forall>p \<in> use_array Start k. use_at w1 p = None"
      using zap_loop_dead[OF assms(1)] w1(1) k(1) by simp
    have "Val r' = None" if "buffer p \<in> {buffer Start} \<and> use_at w1 p = Some r'" for p r'
    proof -
      from that s(3) obtain r where r: "use_at w p = Some r" "Val r = Val r'" by blast
      have "p \<notin> use_array Start k" using dead that by auto
      with k(2) r that show ?thesis unfolding others_unlinked_def by force
    qed
    then have "consistent w'" unfolding w' by (intro release_consistent[OF s(1)]) blast
    moreover have "\<exists>r. use_at w p = Some r \<and> Val r = Val r'" if "use_at w' p = Some r'" for p r'
      using that s(3) by (simp add: w' split: if_splits)
    ultimately show ?thesis using f by (simp add: w')
  qed
qed

lemma zap_list_step:
  assumes "consistent w" "zap_list Ops n del w = Inr w'"
    and "del \<longrightarrow> (\<forall>Begin. Ops = Some Begin \<longrightarrow> others_unlinked Begin n w)"
  shows "consistent w'
       \<and> g_ThreadUserAllocatorTls w' = g_ThreadUserAllocatorTls w
       \<and> PrivateAllocatorData w' = PrivateAllocatorData w
       \<and> (\<forall>p r'. use_at w' p = Some r' \<longrightarrow> (\<exists>r. use_at w p = Some r \<and> Val r = Val r'))"
proof (cases Ops)
  case None
  with assms(1,2) show ?thesis by (auto simp: zap_list_def split: if_splits)
next
  case (Some Begin)
  with assms(2) have z: "zap Begin (ptr_add Begin (sizeof_Use * n)) del w = Inr w'"
    by (simp add: zap_list_def)
  have "del \<longrightarrow> (\<exists>k. ptr_add Begin (sizeof_Use * n) = ptr_add Begin (sizeof_Use * k)
                    \<and> others_unlinked Begin k w)"
    using assms(3) Some by blast
  from zap_step[OF assms(1) z this] show ?thesis .
qed

lemma releases_cong:
  "g_ThreadUserAllocatorTls w' = g_ThreadUserAllocatorTls w \<Longrightarrow>
   PrivateAllocatorData w' = PrivateAllocatorData w \<Longrightarrow> releases p w' = releases p w"
  by (simp add: releases_def split: option.splits)

text \<open>
  The destructor sequence of an inline layout: the Uses from \<open>Storage\<close> are destroyed, and
  the buffer of \<open>Storage\<close>, when it goes back to the platform, holds no other linked Use.
\<close>

lemma destroy_inline_step:
  assumes "consistent w"
    and z: "zap Storage (ptr_add Storage (sizeof_Use * n)) False w = Inr w1"
    and f: "UserFree Storage w1 = Inr w'"
    and g: "releases Storage w \<longrightarrow> others_unlinked Storage n w"
  shows "consistent w'"
proof -
  from z have zl: "zap_loop Storage (ptr_add Storage (sizeof_Use * n)) w = Inr w1"
    by (auto simp: zap_def bind_eq_Inr)
  have "False \<longrightarrow> (\<exists>k. ptr_add Storage (sizeof_Use * n) = ptr_add Storage (sizeof_Use * k)
                    \<and> others_unlinked Storage k w)" by simp
  from zap_step[OF assms(1) z this] have s: "consistent w1"
    "g_ThreadUserAllocatorTls w1 = g_ThreadUserAllocatorTls w"
    "PrivateAllocatorData w1 = PrivateAllocatorData w"
    "\<forall>p r'. use_at w1 p = Some r' \<longrightarrow> (\<exists>r. use_at w p = Some r \<and> Val r = Val r')" by simp_all
  have dead: "\<forall>p \<in> use_array Storage n. use_at w1 p = None"
    using zap_loop_dead[OF assms(1) zl] .
  have "releases Storage w1 \<longrightarrow>
        (\<forall>q r. buffer q = buffer Storage \<and> use_at w1 q = Some r \<longrightarrow> Val r = None)"
  proof (intro impI allI)
    fix q r' assume rl: "releases Storage w1" and q: "buffer q = buffer Storage \<and> use_at w1 q = Some r'"
    from rl have "releases Storage w" using releases_cong[OF s(2,3)] by simp
    with g have o: "others_unlinked Storage n w" by simp
    from q s(4) obtain r where r: "use_at w q = Some r" "Val r = Val r'" by blast
    have "q \<notin> use_array Storage n" using dead q by auto
    with o r q show "Val r' = None" unfolding others_unlinked_def by force
  qed
  from UserFree_step[OF s(1) f this] show ?thesis .
qed

lemma operator_delete2_step:
  assumes "consistent w" "operator_delete2 Usr n w = Inr w'"
    and "\<forall>Storage. ptr_sub Usr (sizeof_Use * n) = Inr Storage \<longrightarrow> releases Storage w \<longrightarrow>
           others_unlinked Storage n w"
  shows "consistent w'"
proof -
  from assms(2) obtain Storage w1 where s: "ptr_sub Usr (sizeof_Use * n) = Inr Storage"
    "zap Storage (ptr_add Storage (sizeof_Use * n)) False w = Inr w1" "UserFree Storage w1 = Inr w'"
    by (auto simp: operator_delete2_def bind_eq_Inr)
  from assms(3) s(1) have "releases Storage w \<longrightarrow> others_unlinked Storage n w" by blast
  from destroy_inline_step[OF assms(1) s(2,3) this] show ?thesis .
qed

lemma operator_delete_step:
  assumes "consistent w" "operator_delete Usr w = Inr w'" "delete_leaves_unlinked Usr w"
  shows "consistent w'"
proof -
  from assms(2) obtain Obj where Obj: "user_at w Usr = Some Obj"
    by (cases "user_at w Usr") (simp_all add: operator_delete_def get_user_def)
  show ?thesis
  proof (cases "HasHungOffUses Obj")
    case False
    with assms(2) Obj obtain Storage w1 where s:
      "ptr_sub Usr (sizeof_Use * NumUserOperands Obj) = Inr Storage"
      "zap Storage (ptr_add Storage (sizeof_Use * NumUserOperands Obj)) False w = Inr w1"
      "UserFree Storage w1 = Inr w'"
      by (auto simp: operator_delete_def get_user_def bind_eq_Inr)
    from assms(3) Obj False s(1)
    have "releases Storage w \<longrightarrow> others_unlinked Storage (NumUserOperands Obj) w"
      by (simp add: delete_leaves_unlinked_def)
    from destroy_inline_step[OF assms(1) s(2,3) this] show ?thesis .
  next
    case True
    with assms(2) Obj obtain Slot Ops w1 where s: "ptr_sub Usr sizeof_ptr = Inr Slot"
      "hungoff_at w Slot = Some Ops"
      "zap_list Ops (NumUserOperands Obj) True w = Inr w1" "UserFree Slot w1 = Inr w'"
      by (auto simp: operator_delete_def get_user_def bind_eq_Inr split: option.splits)
    from assms(3) Obj True s(1)
    have g: "\<forall>Begin. hungoff_at w Slot = Some (Some Begin) \<longrightarrow>
               others_unlinked Begin (NumUserOperands Obj) w"
      "releases Slot w \<longrightarrow> others_unlinked Slot 0 w"
      by (simp_all add: delete_leaves_unlinked_def)
    have "True \<longrightarrow> (\<forall>Begin. Ops = Some Begin \<longrightarrow> others_unlinked Begin (NumUserOperands Obj) w)"
      using g(1) s(2) by simp
    from zap_list_step[OF assms(1) s(3) this] have z: "consistent w1"
      "g_ThreadUserAllocatorTls w1 = g_ThreadUserAllocatorTls w"
      "PrivateAllocatorData w1 = PrivateAllocatorData w"
      "\<forall>p r'. use_at w1 p = Some r' \<longrightarrow> (\<exists>r. use_at w p = Some r \<and> Val r = Val r')" by simp_all
    have "releases Slot w1 \<longrightarrow>
          (\<forall>q r. buffer q = buffer Slot \<and> use_at w1 q = Some r \<longrightarrow> Val r = None)"
    proof (intro impI allI)
      fix q r' assume rl: "releases Slot w1" and q: "buffer q = buffer Slot \<and> use_at w1 q = Some r'"
      from rl have "releases Slot w" using releases_cong[OF z(2,3)] by simp
      with g(2) have o: "others_unlinked Slot 0 w" by simp
      from q z(4) obtain r where r: "use_at w q = Some r" "Val r = Val r'" by blast
      with o q show "Val r' = None" unfolding others_unlinked_0 by force
    qed
    from UserFree_step[OF z(1) s(4) this] show ?thesis .
  qed
qed

lemma setOperand_step:
  "consistent w \<Longrightarrow> setOperand U i V w = Inr w' \<Longrightarrow> consistent w'"
  using Use_set_step by (auto simp: setOperand_def bind_eq_Inr)

lemma replace_loop_step:
  "consistent w \<Longrightarrow> replace_loop U From To i n w = Inr w' \<Longrightarrow> consistent w'"
proof (induction n arbitrary: i w)
  case 0
  then show ?case by simp
next
  case (Suc n)
  from Suc.prems(2) obtain v w1 where s: "getOperand U i w = Inr v"
    "(if v = From then setOperand U i To w else Inr w) = Inr w1"
    "replace_loop U From To (Suc i) n w1 = Inr w'"
    by (auto simp: bind_eq_Inr)
  have "consistent w1" using s(2) Suc.prems(1) setOperand_step by (cases "v = From") auto
  from Suc.IH[OF this s(3)] show ?case .
qed

lemma replaceUsesOfWith_step:
  "consistent w \<Longrightarrow> replaceUsesOfWith U From To w = Inr w' \<Longrightarrow> consistent w'"
  using replace_loop_step
  by (auto simp: replaceUsesOfWith_def bind_eq_Inr split: if_splits)

lemma copy_Uses_step:
  "consistent w \<Longrightarrow> copy_Uses From To n w = Inr w' \<Longrightarrow>
   consistent w' \<and> relinked (use_array To n) w w'"
proof (induction n arbitrary: From To w)
  case 0
  then show ?case by (simp add: relinked_refl)
next
  case (Suc n)
  from Suc.prems(2) obtain r :: Use and w1 where s: "Use_set To (Val r) w = Inr w1"
    "copy_Uses (ptr_add From sizeof_Use) (ptr_add To sizeof_Use) n w1 = Inr w'"
    by (auto simp: bind_eq_Inr)
  from Use_set_step[OF Suc.prems(1) s(1)] have a: "consistent w1" "relinked {To} w w1" by simp_all
  from Suc.IH[OF a(1) s(2)] have b: "consistent w'"
    "relinked (use_array (ptr_add To sizeof_Use) n) w1 w'" by simp_all
  from relinked_trans[OF a(2) b(2)] b(1) show ?case by (simp add: use_array_Suc)
qed

lemma heap_ok_grow:
  assumes "heap_ok w" "use_at w1 = use_at w" "hungoff_at w1 = hungoff_at w"
    and "(heap_live w1 = heap_live w \<and> heap_next w1 = heap_next w)
       \<or> (heap_live w1 = insert (heap_next w) (heap_live w) \<and> heap_next w1 = Suc (heap_next w))"
  shows "heap_ok w1"
  using assms unfolding heap_ok_def by (auto simp: less_Suc_eq)

lemma Allocate_frame:
  assumes "Allocate a S w = Inr (p, a1, w1)"
  shows "use_at w1 = use_at w \<and> UseList w1 = UseList w \<and> hungoff_at w1 = hungoff_at w
       \<and> ((heap_live w1 = heap_live w \<and> heap_next w1 = heap_next w)
          \<or> (heap_live w1 = insert (heap_next w) (heap_live w) \<and> heap_next w1 = Suc (heap_next w)))"
proof (cases "LargeAllocationThreshold < S")
  case True
  with assms show ?thesis
    by (auto simp: Allocate_def platform_new_def SetPrivateData_def)
next
  case False
  with assms obtain r where r: "GetReuseBucketIndex S = Inr r"
    "(case TryPopFree a r of Some (FreeUser, a1) \<Rightarrow> Inr (FreeUser, a1, w) | None \<Rightarrow> carve a S w)
       = Inr (p, a1, w1)"
    by (auto simp: Allocate_def bind_eq_Inr)
  show ?thesis
  proof (cases "TryPopFree a r")
    case None
    with r(2) have "carve a S w = Inr (p, a1, w1)" by simp
    then show ?thesis
      by (auto simp: carve_def GetFirstBlockFor_def platform_new_def SetPrivateData_def Let_def
          bind_eq_Inr split: if_splits prod.splits)
  next
    case (Some x)
    with r(2) show ?thesis by (cases x) simp
  qed
qed

lemma UserAlloc_frame:
  assumes "UserAlloc S w = Inr (p, w1)"
  shows "use_at w1 = use_at w \<and> UseList w1 = UseList w \<and> hungoff_at w1 = hungoff_at w
       \<and> ((heap_live w1 = heap_live w \<and> heap_next w1 = heap_next w)
          \<or> (heap_live w1 = insert (heap_next w) (heap_live w) \<and> heap_next w1 = Suc (heap_next w)))"
proof (cases "g_ThreadUserAllocatorTls w")
  case None
  with assms show ?thesis by (auto simp: UserAlloc_def platform_new_def)
next
  case (Some a)
  with assms obtain a1 w0 where a: "Allocate a S w = Inr (p, a1, w0)"
    "w1 = w0\<lparr>g_ThreadUserAllocatorTls := Some a1\<rparr>"
    by (auto simp: UserAlloc_def bind_eq_Inr)
  from Allocate_frame[OF a(1)] show ?thesis unfolding a(2) by simp
qed

lemma UserAlloc_step:
  assumes "consistent w" "UserAlloc S w = Inr (p, w1)"
  shows "consistent w1 \<and> use_at w1 = use_at w"
proof -
  note f = UserAlloc_frame[OF assms(2)]
  from f have "use_lists_ok w1" using assms(1) use_lists_ok_cong[of w1 w] by (simp add: consistent_def)
  moreover have "heap_ok w1" using consistent_heap[OF assms(1)] f by (intro heap_ok_grow[of w w1]) simp_all
  ultimately show ?thesis using f by (simp add: consistent_def)
qed

lemma delete_Blocks_release:
  "delete_Blocks bs w = Inr w' \<Longrightarrow> w' = release (buffer ` Blob ` set bs) w"
proof (induction bs arbitrary: w)
  case Nil
  then show ?case by simp
next
  case (Cons b bs)
  from Cons.prems obtain w1 where s: "platform_delete (Blob b) w = Inr w1" "delete_Blocks bs w1 = Inr w'"
    by (auto simp: bind_eq_Inr)
  from s(1) have "w1 = release {buffer (Blob b)} w" by (auto simp: platform_delete_def split: if_splits)
  with Cons.IH[OF s(2)] show ?case by (simp add: release_release)
qed

lemma UserThreadAlloc_ctor_step:
  "consistent w \<Longrightarrow> UserThreadAlloc_ctor w = Inr w' \<Longrightarrow> consistent w'"
  by (auto simp: UserThreadAlloc_ctor_def split: if_splits elim!: consistent_cong)

lemma UserThreadAlloc_dtor_step:
  assumes "consistent w" "UserThreadAlloc_dtor w = Inr w'"
    and "\<forall>a. g_ThreadUserAllocatorTls w = Some a \<longrightarrow>
           (\<forall>b \<in> set (Blocks a). others_unlinked (Blob b) 0 w)"
  shows "consistent w'"
proof -
  from assms(2) obtain a :: UserBlockAllocator and w1 where a: "g_ThreadUserAllocatorTls w = Some a"
    "delete_Blocks (Blocks a) w = Inr w1" "w' = w1\<lparr>g_ThreadUserAllocatorTls := None\<rparr>"
    by (auto simp: UserThreadAlloc_dtor_def bind_eq_Inr split: option.splits)
  have w1: "w1 = release (buffer ` Blob ` set (Blocks a)) w" using delete_Blocks_release[OF a(2)] .
  have "\<forall>p r. buffer p \<in> buffer ` Blob ` set (Blocks a) \<and> use_at w p = Some r \<longrightarrow> Val r = None"
    using assms(3) a(1) unfolding others_unlinked_0 by force
  from release_consistent[OF assms(1) this] have "consistent w1" unfolding w1 .
  then show ?thesis unfolding a(3) by (rule consistent_cong) simp_all
qed

lemma construct_Uses_step:
  assumes "consistent w" "unlinked_storage Begin n w" "0 < n \<longrightarrow> buffer Begin \<in> heap_live w"
  shows "consistent (construct_Uses Begin n P w)"
proof -
  obtain L where L: "rep {} L w" using assms(1) unfolding consistent_def use_lists_ok_def by blast
  let ?w = "w\<lparr>use_at := (\<lambda>p. if p \<in> use_array Begin n then Some (fresh_Use P) else use_at w p)\<rparr>"
  have "rep {} L ?w" by (rule construct_rep[OF L]) (use assms(2) in \<open>simp add: unlinked_storage_def\<close>)
  then have "rep {} L (construct_Uses Begin n P w)"
    unfolding construct_Uses_eq by (subst rep_cong[of _ ?w]) simp_all
  moreover have "heap_ok (construct_Uses Begin n P w)"
  proof -
    have "buffer p \<in> heap_live w" if "p \<in> use_array Begin n" for p
      using that assms(3) use_array_buffer[OF that] by (cases n) auto
    then show ?thesis using consistent_heap[OF assms(1)]
      unfolding construct_Uses_eq heap_ok_def by (auto split: if_splits)
  qed
  ultimately show ?thesis by (rule consistentI)
qed

lemma unlinked_storage_cong:
  "use_at w' = use_at w \<Longrightarrow> unlinked_storage Begin n w' = unlinked_storage Begin n w"
  by (simp add: unlinked_storage_def)

lemma construct_Uses_heap_live [simp]:
  "heap_live (construct_Uses Begin n P w) = heap_live w"
  by (simp add: construct_Uses_eq)

lemma operator_new_step:
  assumes "consistent w" "operator_new Size Us w = Inr (Obj, w')"
    and "ptr_sub Obj (sizeof_Use * Us) = Inr Storage"
    and "buffer Storage \<in> heap_live w'" "unlinked_storage Storage Us w"
  shows "consistent w'"
proof -
  from assms(2) obtain St w1 where a: "UserAlloc ((Size + sizeof_Use * Us) mod 2 ^ 64) w = Inr (St, w1)"
    "Obj = ptr_add St (sizeof_Use * Us)"
    "w' = construct_Uses St Us Obj
            (w1\<lparr>user_at := (user_at w1)(Obj \<mapsto> \<lparr>NumUserOperands = Us, HasHungOffUses = False\<rparr>)\<rparr>)"
    unfolding operator_new_def by (auto simp: bind_eq_Inr Let_def split: if_splits)
  let ?w2 = "w1\<lparr>user_at := (user_at w1)(Obj \<mapsto> \<lparr>NumUserOperands = Us, HasHungOffUses = False\<rparr>)\<rparr>"
  have St: "St = Storage" using assms(3) unfolding a(2) by (simp add: ptr_sub_add)
  from UserAlloc_step[OF assms(1) a(1)] have c1: "consistent w1" "use_at w1 = use_at w" by simp_all
  have c2: "consistent ?w2" using c1(1) by (rule consistent_cong) simp_all
  have u: "unlinked_storage St Us ?w2"
    using assms(5) unlinked_storage_cong[of ?w2 w] c1(2) St by simp
  have "buffer St \<in> heap_live ?w2" using assms(4) unfolding a(3) St by simp
  then have "0 < Us \<longrightarrow> buffer St \<in> heap_live ?w2" by simp
  from construct_Uses_step[OF c2 u this] show ?thesis unfolding a(3) .
qed

lemma operator_new_hungoff_step:
  assumes "consistent w" "operator_new_hungoff Size w = Inr (Obj, w')"
  shows "consistent w'"
proof -
  from assms(2) obtain St w1 where a: "UserAlloc ((Size + sizeof_ptr) mod 2 ^ 64) w = Inr (St, w1)"
    "w' = w1\<lparr>user_at := (user_at w1)
                 (ptr_add St sizeof_ptr \<mapsto> \<lparr>NumUserOperands = 0, HasHungOffUses = True\<rparr>),
               hungoff_at := (hungoff_at w1)(St \<mapsto> None),
               PrivateAllocatorData := (PrivateAllocatorData w1)(St := None)\<rparr>"
    unfolding operator_new_hungoff_def by (auto simp: bind_eq_Inr Let_def)
  from UserAlloc_step[OF assms(1) a(1)] have c1: "consistent w1" by simp
  then have "use_lists_ok w'" unfolding a(2) consistent_def
    by (elim conjE use_lists_ok_cong[rotated 2]) simp_all
  moreover have "heap_ok w'" using consistent_heap[OF c1] unfolding a(2) heap_ok_def by simp
  ultimately show ?thesis by (simp add: consistent_def)
qed

lemma fresh_buffer_empty:
  assumes "heap_ok w" "buffer p = heap_next w"
  shows "use_at w p = None"
proof (rule ccontr)
  assume "use_at w p \<noteq> None"
  with assms(1) have "buffer p \<in> heap_live w" unfolding heap_ok_def by blast
  with assms(1) have "buffer p < heap_next w" unfolding heap_ok_def by blast
  with assms(2) show False by simp
qed

lemma allocHungoffUses_step:
  assumes "consistent w" "allocHungoffUses U N IsPhi w = Inr w'"
  shows "consistent w'
       \<and> (\<forall>p. buffer p \<noteq> heap_next w \<longrightarrow> use_at w' p = use_at w p)
       \<and> heap_next w' = Suc (heap_next w)
       \<and> (\<forall>Slot. ptr_sub U sizeof_ptr = Inr Slot \<longrightarrow> hungoff_at w' Slot = Some (Some (Ptr (heap_next w) 0)))"
proof -
  let ?B = "Ptr (heap_next w) 0"
  let ?w1 = "snd (platform_new w)"
  from assms(2) obtain w2 where a: "setOperandList U ?B ?w1 = Inr w2"
    "w' = construct_Uses ?B N U w2"
    unfolding allocHungoffUses_def
    by (auto simp: bind_eq_Inr platform_new_def split: if_splits)
  from a(1) obtain Slot where s: "ptr_sub U sizeof_ptr = Inr Slot"
    "w2 = ?w1\<lparr>hungoff_at := (hungoff_at ?w1)(Slot \<mapsto> Some ?B)\<rparr>"
    by (auto simp: setOperandList_def bind_eq_Inr split: if_splits)
  have l: "use_at w2 = use_at w" "UseList w2 = UseList w"
    "heap_live w2 = insert (heap_next w) (heap_live w)" "heap_next w2 = Suc (heap_next w)"
    "hungoff_at w2 = (hungoff_at w)(Slot \<mapsto> Some ?B)"
    unfolding s(2) by (simp_all add: platform_new_def)
  have "use_lists_ok w2" using l(1,2) assms(1) use_lists_ok_cong[of w2 w] by (simp add: consistent_def)
  moreover have "heap_ok w2" using consistent_heap[OF assms(1)] unfolding heap_ok_def l
    by (auto simp: less_Suc_eq)
  ultimately have c2: "consistent w2" by (simp add: consistent_def)
  have "use_at w p = None" if "p \<in> use_array ?B N" for p
    using fresh_buffer_empty[OF consistent_heap[OF assms(1)], of p] use_array_buffer[OF that] by simp
  then have u: "unlinked_storage ?B N w2" unfolding unlinked_storage_def l(1) by simp
  have "0 < N \<longrightarrow> buffer ?B \<in> heap_live w2" by (simp add: l)
  from construct_Uses_step[OF c2 u this] have "consistent w'" unfolding a(2) .
  moreover have "use_at w' p = use_at w p" if "buffer p \<noteq> heap_next w" for p
    using that use_array_buffer[of p ?B N] unfolding a(2) construct_Uses_eq by (auto simp: l(1))
  moreover have "heap_next w' = Suc (heap_next w)" unfolding a(2) construct_Uses_eq by (simp add: l)
  moreover have "hungoff_at w' Slot = Some (Some ?B)" unfolding a(2) construct_Uses_eq by (simp add: l)
  ultimately show ?thesis using s(1) by simp
qed

lemma setNumHungOffUseOperands_step:
  "consistent w \<Longrightarrow> setNumHungOffUseOperands U N w = Inr w' \<Longrightarrow> consistent w'"
  by (auto simp: setNumHungOffUseOperands_def get_user_def bind_eq_Inr
      split: option.splits if_splits elim!: consistent_cong)

lemma allocHungoffUses_user_at:
  "allocHungoffUses U N IsPhi w = Inr w' \<Longrightarrow> user_at w' = user_at w"
  by (auto simp: allocHungoffUses_def setOperandList_def get_user_def bind_eq_Inr platform_new_def
      construct_Uses_eq split: option.splits if_splits)

lemma growHungoffUses_step:
  assumes "consistent w" "growHungoffUses U NewNumUses IsPhi w = Inr w'"
    and "getOperandList U w = Inr Ops" "getNumOperands U w = Inr n"
    and "\<forall>Old. Ops = Some Old \<longrightarrow> others_unlinked Old n w"
  shows "consistent w'"
proof -
  obtain r :: User where r: "user_at w U = Some r"
    using assms(2) by (cases "user_at w U") (simp_all add: growHungoffUses_def get_user_def)
  have n: "n = NumUserOperands r" using assms(4) r by (simp add: getNumOperands_def get_user_def)
  have c: "HasHungOffUses r \<and> NumUserOperands r < NewNumUses"
  proof (rule ccontr)
    assume "\<not> (HasHungOffUses r \<and> NumUserOperands r < NewNumUses)"
    then have "growHungoffUses U NewNumUses IsPhi w = Inl AssertionFailed"
      using r by (auto simp: growHungoffUses_def get_user_def Let_def)
    with assms(2) show False by simp
  qed
  have e: "bind (getOperandList U w) (\<lambda>OldOps.
           bind (allocHungoffUses U NewNumUses IsPhi w) (\<lambda>w1.
           bind (getOperandList U w1) (\<lambda>NewOps.
           case NewOps of
             None \<Rightarrow> Inl InvalidAccess
           | Some New \<Rightarrow>
               bind (case OldOps of
                       None \<Rightarrow> if NumUserOperands r = 0 then Inr w1 else Inl InvalidAccess
                     | Some Old \<Rightarrow>
                         bind (copy_Uses Old New (NumUserOperands r) w1) (\<lambda>w2.
                         Inr (if IsPhi
                              then copy_BBs (ptr_add Old (sizeof_Use * NumUserOperands r))
                                     (ptr_add New (sizeof_Use * NewNumUses)) (NumUserOperands r) w2
                              else w2))) (\<lambda>w3.
               zap_list OldOps (NumUserOperands r) True w3)))) = Inr w'"
    using assms(2) r c by (simp add: growHungoffUses_def get_user_def Let_def)
  from e[unfolded bind_eq_Inr] obtain OldOps w1 NewOps where a1:
    "getOperandList U w = Inr OldOps"
    "allocHungoffUses U NewNumUses IsPhi w = Inr w1"
    "getOperandList U w1 = Inr NewOps"
    "(case NewOps of
             None \<Rightarrow> Inl InvalidAccess
           | Some New \<Rightarrow>
               bind (case OldOps of
                       None \<Rightarrow> if NumUserOperands r = 0 then Inr w1 else Inl InvalidAccess
                     | Some Old \<Rightarrow>
                         bind (copy_Uses Old New (NumUserOperands r) w1) (\<lambda>w2.
                         Inr (if IsPhi
                              then copy_BBs (ptr_add Old (sizeof_Use * NumUserOperands r))
                                     (ptr_add New (sizeof_Use * NewNumUses)) (NumUserOperands r) w2
                              else w2))) (\<lambda>w3.
               zap_list OldOps (NumUserOperands r) True w3)) = Inr w'"
    by blast
  have Ops: "OldOps = Ops" using a1(1) assms(3) by simp
  from a1(4) obtain New where New: "NewOps = Some New" by (cases NewOps) simp_all
  from a1(4)[unfolded New option.case bind_eq_Inr] obtain w3 where a23:
    "(case OldOps of
        None \<Rightarrow> if NumUserOperands r = 0 then Inr w1 else Inl InvalidAccess
      | Some Old \<Rightarrow>
          bind (copy_Uses Old New (NumUserOperands r) w1) (\<lambda>w2.
          Inr (if IsPhi
               then copy_BBs (ptr_add Old (sizeof_Use * NumUserOperands r))
                      (ptr_add New (sizeof_Use * NewNumUses)) (NumUserOperands r) w2
               else w2))) = Inr w3"
    "zap_list OldOps (NumUserOperands r) True w3 = Inr w'"
    by blast
  from allocHungoffUses_step[OF assms(1) a1(2)] have s1: "consistent w1"
    "\<forall>p. buffer p \<noteq> heap_next w \<longrightarrow> use_at w1 p = use_at w p"
    "\<forall>Slot. ptr_sub U sizeof_ptr = Inr Slot \<longrightarrow> hungoff_at w1 Slot = Some (Some (Ptr (heap_next w) 0))"
    by simp_all
  have r1: "user_at w1 U = Some r" using allocHungoffUses_user_at[OF a1(2)] r by simp
  obtain Slot where Slot: "ptr_sub U sizeof_ptr = Inr Slot"
    using a1(1) r c by (cases "ptr_sub U sizeof_ptr") (simp_all add: getOperandList_def get_user_def)
  have NewB: "New = Ptr (heap_next w) 0"
    using a1(3) r1 c Slot s1(3) by (simp add: getOperandList_def get_user_def New)
  have ok3: "consistent w3 \<and> (\<forall>Old. OldOps = Some Old \<longrightarrow> others_unlinked Old (NumUserOperands r) w3)"
  proof (cases OldOps)
    case None
    with a23(1) s1(1) show ?thesis by (auto split: if_splits)
  next
    case (Some Old)
    with a23(1) obtain w2 where w2: "copy_Uses Old New (NumUserOperands r) w1 = Inr w2"
      "w3 = (if IsPhi
               then copy_BBs (ptr_add Old (sizeof_Use * NumUserOperands r))
                      (ptr_add New (sizeof_Use * NewNumUses)) (NumUserOperands r) w2
               else w2)"
      by (auto simp: bind_eq_Inr)
    from copy_Uses_step[OF s1(1) w2(1)] have s2: "consistent w2"
      "relinked (use_array New (NumUserOperands r)) w1 w2" by simp_all
    obtain B where B: "w3 = w2\<lparr>bb_at := B\<rparr>"
    proof (cases IsPhi)
      case True
      with w2(2) copy_BBs_frame show ?thesis using that by metis
    next
      case False
      with w2(2) have "w3 = w2\<lparr>bb_at := bb_at w2\<rparr>" by simp
      then show ?thesis using that by blast
    qed
    have c3: "consistent w3" using s2(1) unfolding B by (rule consistent_cong) simp_all
    have hO: "hungoff_at w Slot = Some (Some Old)"
      using a1(1) r c Slot Some
      by (cases "hungoff_at w Slot") (simp_all add: getOperandList_def get_user_def)
    have bO: "buffer Old < heap_next w"
      using consistent_heap[OF assms(1)] hO unfolding heap_ok_def by blast
    have g: "others_unlinked Old (NumUserOperands r) w" using assms(5) Ops Some n by simp
    have "others_unlinked Old (NumUserOperands r) w3"
      unfolding others_unlinked_def
    proof (intro allI impI)
      fix p r' assume h: "buffer p = buffer Old \<and> p \<notin> use_array Old (NumUserOperands r)
                           \<and> use_at w3 p = Some r'"
      then have u2: "use_at w2 p = Some r'" unfolding B by simp
      have bp: "buffer p \<noteq> heap_next w" using h bO by simp
      then have "p \<notin> use_array New (NumUserOperands r)"
        using use_array_buffer[of p New "NumUserOperands r"] NewB by auto
      from relinked_use_back[OF s2(2) this u2] obtain r1 where
        r1: "use_at w1 p = Some r1" "Val r' = Val r1" by blast
      from s1(2) bp r1(1) have "use_at w p = Some r1" by simp
      with g h r1(2) show "Val r' = None" unfolding others_unlinked_def by force
    qed
    with c3 Some show ?thesis by simp
  qed
  then have "True \<longrightarrow> (\<forall>Begin. OldOps = Some Begin \<longrightarrow> others_unlinked Begin (NumUserOperands r) w3)"
    by simp
  from zap_list_step[OF conjunct1[OF ok3] a23(2) this] show ?thesis by simp
qed

lemma world0_consistent: "consistent world0"
proof -
  have "rep {} (\<lambda>_. []) world0"
    by (simp add: rep_def use_list_def world0_def)
  moreover have "heap_ok world0" by (simp add: heap_ok_def world0_def)
  ultimately show ?thesis by (rule consistentI)
qed

lemma reachable_consistent: "reachable w \<Longrightarrow> consistent w"
proof (induction rule: reachable.induct)
  case init
  show ?case by (rule world0_consistent)
next
  case (new w Size Us Obj w' Storage)
  from operator_new_step[OF new.IH new.hyps(2-5)] show ?case .
next
  case (new_hungoff w Size Obj w')
  from operator_new_hungoff_step[OF new_hungoff.IH new_hungoff.hyps(2)] show ?case .
next
  case (alloc_hungoff w U N IsPhi w')
  from allocHungoffUses_step[OF alloc_hungoff.IH alloc_hungoff.hyps(2)] show ?case by simp
next
  case (set_count w U N w')
  from setNumHungOffUseOperands_step[OF set_count.IH set_count.hyps(2)] show ?case .
next
  case (grow_hungoff w U N IsPhi w' Ops n)
  from growHungoffUses_step[OF grow_hungoff.IH grow_hungoff.hyps(2-5)] show ?case .
next
  case (set w u V w')
  from Use_set_step[OF set.IH set.hyps(2)] show ?case by simp
next
  case (set_operand w U i V w')
  from setOperand_step[OF set_operand.IH set_operand.hyps(2)] show ?case .
next
  case (replace_uses w U From To w')
  from replaceUsesOfWith_step[OF replace_uses.IH replace_uses.hyps(2)] show ?case .
next
  case (swap w a b w')
  from Use_swap_step[OF swap.IH swap.hyps(2)] show ?case .
next
  case (zap w Start Stop del w')
  from zap_step[OF zap.IH zap.hyps(2,3)] show ?case by simp
next
  case (delete w Usr w')
  from operator_delete_step[OF delete.IH delete.hyps(2,3)] show ?case .
next
  case (delete2 w Usr n w')
  from operator_delete2_step[OF delete2.IH delete2.hyps(2,3)] show ?case .
next
  case (thread_ctor w w')
  from UserThreadAlloc_ctor_step[OF thread_ctor.IH thread_ctor.hyps(2)] show ?case .
next
  case (thread_dtor w w')
  from UserThreadAlloc_dtor_step[OF thread_dtor.IH thread_dtor.hyps(2,3)] show ?case .
qed

lemma dll_links:
  "dll w v s p us \<Longrightarrow> read_slot s w = Inr p \<Longrightarrow> u \<in> set us \<Longrightarrow>
   \<exists>r. use_at w u = Some r
     \<and> (\<exists>s'. Prev r = Some s' \<and> read_slot s' w = Inr (Some u))
     \<and> (\<forall>n. Next r = Some n \<longrightarrow> (\<exists>rn. use_at w n = Some rn \<and> Prev rn = Some (NextOf u)))"
proof (induction us arbitrary: s p)
  case Nil
  then show ?case by simp
next
  case (Cons x us)
  from Cons.prems(1) obtain r :: Use where r: "p = Some x" "use_at w x = Some r" "Val r = Some v"
    "Prev r = Some s" "dll w v (NextOf x) (Next r) us"
    by (cases "use_at w x") auto
  have rs: "read_slot (NextOf x) w = Inr (Next r)"
    using r(2) by (simp add: read_slot_def get_use_def)
  show ?case
  proof (cases "u = x")
    case True
    have "\<exists>rn. use_at w n = Some rn \<and> Prev rn = Some (NextOf x)" if n: "Next r = Some n" for n
    proof (cases us)
      case Nil
      with r(5) n show ?thesis by simp
    next
      case (Cons y ys)
      with r(5) n show ?thesis by (cases "use_at w y") auto
    qed
    with r Cons.prems(2) True show ?thesis by auto
  next
    case False
    with Cons.prems(3) have "u \<in> set us" by simp
    from Cons.IH[OF r(5) rs this] show ?thesis .
  qed
qed

lemma rep_lists:
  assumes "rep {} L w"
  shows "use_list w v (L v) \<and> distinct (L v)
       \<and> set (L v) = {u. \<exists>r. use_at w u = Some r \<and> Val r = Some v}"
proof -
  from assms have a: "use_list w v (L v)" "distinct (L v)"
    and b: "\<And>u r. use_at w u = Some r \<Longrightarrow> Val r = Some v \<Longrightarrow> u \<in> set (L v)"
    unfolding rep_def by auto
  have "\<exists>r. use_at w u = Some r \<and> Val r = Some v" if "u \<in> set (L v)" for u
    using dll_member[OF a(1)[unfolded use_list_def] that] by auto
  with a b show ?thesis by auto
qed


text \<open>
  The first example world is reachable: it is the initial world after
  \<^verbatim>\<open>new (3) User\<close> of a 64-byte class and three \<^verbatim>\<open>set\<close> calls.
\<close>

lemma demo_reachable: "reachable demo_world"
proof -
  define w1 where "w1 = world0\<lparr>heap_next := 1, heap_live := {0},
     use_at := [Ptr 0 0 \<mapsto> fresh_Use (Ptr 0 96), Ptr 0 32 \<mapsto> fresh_Use (Ptr 0 96),
                Ptr 0 64 \<mapsto> fresh_Use (Ptr 0 96)],
     user_at := [Ptr 0 96 \<mapsto> \<lparr>NumUserOperands = 3, HasHungOffUses = False\<rparr>]\<rparr>"
  define w2 where "w2 = w1\<lparr>
     use_at := (use_at w1)(Ptr 0 32 \<mapsto> \<lparr>Val = Some 1, Next = None, Prev = Some (UseListOf 1),
                              Parent = Some (Ptr 0 96)\<rparr>),
     UseList := (\<lambda>_. None)(1 := Some (Ptr 0 32))\<rparr>"
  define w3 where "w3 = w2\<lparr>
     use_at := (use_at w2)(Ptr 0 0 \<mapsto> \<lparr>Val = Some 1, Next = Some (Ptr 0 32), Prev = Some (UseListOf 1),
                              Parent = Some (Ptr 0 96)\<rparr>,
                           Ptr 0 32 \<mapsto> \<lparr>Val = Some 1, Next = None, Prev = Some (NextOf (Ptr 0 0)),
                              Parent = Some (Ptr 0 96)\<rparr>),
     UseList := (\<lambda>_. None)(1 := Some (Ptr 0 0))\<rparr>"
  have n: "operator_new 64 3 world0 = Inr (Ptr 0 96, w1)"
    unfolding w1_def
    by (simp add: operator_new_def UserAlloc_def world0_def platform_new_def NumUserOperandsBits_def
          sizeof_Use_def ptr_add_def Let_def numeral_3_eq_3 Use_ctor_def fresh_Use_def)
  have s1: "Use_set (Ptr 0 32) (Some 1) w1 = Inr w2"
    unfolding w2_def w1_def
    by (simp add: Use_set_def get_use_def modify_use_def addUse_def addToList_def read_slot_def
          setPrev_def write_slot_def world0_def fresh_Use_def)
  have s2: "Use_set (Ptr 0 0) (Some 1) w2 = Inr w3"
    unfolding w3_def w2_def w1_def
    by (simp add: Use_set_def get_use_def modify_use_def addUse_def addToList_def read_slot_def
          setPrev_def write_slot_def world0_def fresh_Use_def fun_upd_twist)
  have s3: "Use_set (Ptr 0 64) (Some 2) w3 = Inr demo_world"
    unfolding demo_world_def w3_def w2_def w1_def
    by (simp add: Use_set_def get_use_def modify_use_def addUse_def addToList_def read_slot_def
          setPrev_def write_slot_def world0_def fresh_Use_def)
  have u: "unlinked_storage (Ptr 0 0) 3 world0"
    by (simp add: unlinked_storage_def world0_def)
  have p: "ptr_sub (Ptr 0 96) (sizeof_Use * 3) = Inr (Ptr 0 0)"
    by (simp add: ptr_sub_def sizeof_Use_def)
  have l: "buffer (Ptr 0 0) \<in> heap_live w1" by (simp add: w1_def)
  from reachable.new[OF reachable.init n p l u] have "reachable w1" .
  from reachable.set[OF reachable.set[OF reachable.set[OF this s1] s2] s3] show ?thesis .
qed

text \<open>
  The second example world is reachable: it is the initial world after \<^verbatim>\<open>new User\<close>
  of the hung-off shape for a 64-byte class, \<open>allocHungoffUses\<close> for two operands, the
  operand count set to 2 and two \<open>setOperand\<close> calls.
\<close>

lemma hung_reachable: "reachable hung_world"
proof -
  define wa where "wa = world0\<lparr>heap_next := 2, heap_live := {0, 1},
     use_at := [Ptr 1 0 \<mapsto> fresh_Use (Ptr 0 8), Ptr 1 32 \<mapsto> fresh_Use (Ptr 0 8)],
     user_at := [Ptr 0 8 \<mapsto> \<lparr>NumUserOperands = 0, HasHungOffUses = True\<rparr>],
     hungoff_at := [Ptr 0 0 \<mapsto> Some (Ptr 1 0)]\<rparr>"
  define wb where "wb = wa\<lparr>user_at := [Ptr 0 8 \<mapsto> \<lparr>NumUserOperands = 2, HasHungOffUses = True\<rparr>]\<rparr>"
  define wc where "wc = wb\<lparr>
     use_at := (use_at wb)(Ptr 1 0 \<mapsto> \<lparr>Val = Some 1, Next = None, Prev = Some (UseListOf 1),
                              Parent = Some (Ptr 0 8)\<rparr>),
     UseList := (\<lambda>_. None)(1 := Some (Ptr 1 0))\<rparr>"
  have h0: "operator_new_hungoff 64 world0 = Inr (Ptr 0 8, hung_null_world)"
    by (rule hung_null_run)
  have h1: "allocHungoffUses (Ptr 0 8) 2 False hung_null_world = Inr wa"
    unfolding wa_def
    by (simp add: allocHungoffUses_def get_user_def hung_null_world_def world0_def platform_new_def
          setOperandList_def ptr_sub_def sizeof_ptr_def sizeof_Use_def ptr_add_def numeral_2_eq_2
          Use_ctor_def fresh_Use_def insert_commute)
  have h2: "setNumHungOffUseOperands (Ptr 0 8) 2 wa = Inr wb"
    unfolding wb_def wa_def
    by (simp add: setNumHungOffUseOperands_def get_user_def NumUserOperandsBits_def world0_def)
  have h3: "setOperand (Ptr 0 8) 0 (Some 1) wb = Inr wc"
    unfolding wc_def wb_def wa_def
    by (simp add: setOperand_def operand_use_def getOperandList_def get_user_def ptr_sub_def
          sizeof_ptr_def sizeof_Use_def ptr_add_def
          Use_set_def get_use_def modify_use_def addUse_def addToList_def read_slot_def
          setPrev_def write_slot_def world0_def fresh_Use_def)
  have h4: "setOperand (Ptr 0 8) 1 (Some 2) wc = Inr hung_world"
    unfolding hung_world_def wc_def wb_def wa_def
    by (simp add: setOperand_def operand_use_def getOperandList_def get_user_def ptr_sub_def
          sizeof_ptr_def sizeof_Use_def ptr_add_def
          Use_set_def get_use_def modify_use_def addUse_def addToList_def read_slot_def
          setPrev_def write_slot_def world0_def fresh_Use_def)
  from reachable.set_operand[OF reachable.set_operand[OF reachable.set_count[OF
    reachable.alloc_hungoff[OF reachable.new_hungoff[OF reachable.init h0] h1] h2] h3] h4]
  show ?thesis .
qed

text \<open>
  Deleting the hung-off User of the second example world is a step too: its operand count
  covers both Uses of the array, and neither buffer holds another Use.
\<close>

lemma hung_deleted_reachable:
  "\<exists>w'. operator_delete (Ptr 0 8) hung_world = Inr w' \<and> reachable w'"
proof -
  from hung_delete_succeeds obtain w' where w': "operator_delete (Ptr 0 8) hung_world = Inr w'"
    by (cases "operator_delete (Ptr 0 8) hung_world") auto
  have "delete_leaves_unlinked (Ptr 0 8) hung_world"
    by (auto simp: delete_leaves_unlinked_def others_unlinked_def hung_world_def use_array_2
        ptr_add_def ptr_sub_def sizeof_ptr_def sizeof_Use_def split: if_splits)
  from reachable.delete[OF hung_reachable w' this] w' show ?thesis by blast
qed



end
